theory Spec2Isabelle
  imports Main "HOL-Library.AList" "HOL-Library.Char_ord" "HOL-Library.List_Lexorder"
begin

section \<open>Documents of the textual codec\<close>

text \<open>
  The package \<^verbatim>\<open>jsonobj\<close> works on top of Go's \<^verbatim>\<open>encoding/json\<close>. A JSON text is
  modelled by the tree it denotes; a number keeps its literal, an object keeps its
  members in the order of the text (a key may occur more than once in a text).
  \<^verbatim>\<open>json.RawMessage\<close>, the undecoded bytes of one value, is such a tree.
\<close>

datatype json =
    JNull
  | JBool bool
  | JNumber string
  | JString string
  | JArray "json list"
  | JObject "(string \<times> json) list"

text \<open>The bytes handed to \<^verbatim>\<open>FromJSON\<close>: either not a JSON text at all, or the text of a value.\<close>

datatype wire = Malformed | Valid json

section \<open>Go values as \<^verbatim>\<open>reflect\<close> sees them\<close>

text \<open>
  \<^verbatim>\<open>reflect.StructField\<close>, with the three members \<^verbatim>\<open>retain.go\<close> reads. A struct tag is
  kept as the list of its \<^verbatim>\<open>key:"value"\<close> pairs; \<^verbatim>\<open>Tag.Get\<close> returns the empty string
  for a key that is not there.
\<close>

record StructField =
  Name :: string
  PkgPath :: string
  Tag :: "(string \<times> string) list"

definition IsExported :: "StructField \<Rightarrow> bool" where
  "IsExported f = (PkgPath f = [])"

definition Tag_Get :: "(string \<times> string) list \<Rightarrow> string \<Rightarrow> string" where
  "Tag_Get t key = (case map_of t key of None \<Rightarrow> [] | Some v \<Rightarrow> v)"

datatype gotype =
    TNil
  | TBool
  | TInt
  | TString
  | TFunc
  | TPtr gotype
  | TSlice gotype
  | TMap gotype
  | TArray nat gotype
  | TStruct string "(StructField \<times> gotype) list"

text \<open>
  The values: \<open>VNil\<close> is the nil interface (and the zero \<^verbatim>\<open>reflect.Value\<close>, which is what
  \<^verbatim>\<open>Elem\<close> of a nil pointer gives); a slice or a map is nil (\<open>None\<close>) or allocated; maps
  have string keys; a struct value lists its fields in declaration order.
\<close>

datatype goval =
    VNil
  | VBool bool
  | VInt int
  | VString string
  | VFunc bool
  | VNilPtr gotype
  | VPtrTo goval
  | VSlice gotype "goval list option"
  | VMap gotype "(string \<times> goval) list option"
  | VArray gotype "goval list"
  | VStruct string "(StructField \<times> goval) list"

datatype Kind =
  KInvalid | KBool | KInt | KString | KFunc | KPointer | KSlice | KMap | KArray | KStruct

fun Kind_of :: "goval \<Rightarrow> Kind" where
  "Kind_of VNil = KInvalid"
| "Kind_of (VBool _) = KBool"
| "Kind_of (VInt _) = KInt"
| "Kind_of (VString _) = KString"
| "Kind_of (VFunc _) = KFunc"
| "Kind_of (VNilPtr _) = KPointer"
| "Kind_of (VPtrTo _) = KPointer"
| "Kind_of (VSlice _ _) = KSlice"
| "Kind_of (VMap _ _) = KMap"
| "Kind_of (VArray _ _) = KArray"
| "Kind_of (VStruct _ _) = KStruct"

text \<open>The dynamic type, which the verb \<^verbatim>\<open>%T\<close> prints.\<close>

fun TypeOf :: "goval \<Rightarrow> gotype" where
  "TypeOf VNil = TNil"
| "TypeOf (VBool _) = TBool"
| "TypeOf (VInt _) = TInt"
| "TypeOf (VString _) = TString"
| "TypeOf (VFunc _) = TFunc"
| "TypeOf (VNilPtr t) = TPtr t"
| "TypeOf (VPtrTo v) = TPtr (TypeOf v)"
| "TypeOf (VSlice t _) = TSlice t"
| "TypeOf (VMap t _) = TMap t"
| "TypeOf (VArray t xs) = TArray (length xs) t"
| "TypeOf (VStruct n fs) = TStruct n (map (\<lambda>(f, v). (f, TypeOf v)) fs)"

text \<open>\<^verbatim>\<open>Value.Elem\<close> of a pointer; \<^verbatim>\<open>retain.go\<close> calls it on pointers only.\<close>

fun Elem :: "goval \<Rightarrow> goval" where
  "Elem (VPtrTo v) = v"
| "Elem _ = VNil"

text \<open>\<^verbatim>\<open>Value.Len\<close> of an array, a map or a slice (a nil map or slice has length 0).\<close>

fun Len :: "goval \<Rightarrow> nat" where
  "Len (VSlice _ None) = 0"
| "Len (VSlice _ (Some xs)) = length xs"
| "Len (VMap _ None) = 0"
| "Len (VMap _ (Some m)) = length (AList.clearjunk m)"
| "Len (VArray _ xs) = length xs"
| "Len _ = 0"

text \<open>
  \<^verbatim>\<open>Value.IsZero\<close>: false, 0, the empty string, nil for a function, a pointer, a slice or a
  map, and for an array or a struct the zero test of every element or field.
\<close>

fun IsZero :: "goval \<Rightarrow> bool" where
  "IsZero VNil = True"
| "IsZero (VBool b) = (\<not> b)"
| "IsZero (VInt n) = (n = 0)"
| "IsZero (VString s) = (s = [])"
| "IsZero (VFunc nonnil) = (\<not> nonnil)"
| "IsZero (VNilPtr _) = True"
| "IsZero (VPtrTo _) = False"
| "IsZero (VSlice _ xs) = (xs = None)"
| "IsZero (VMap _ m) = (m = None)"
| "IsZero (VArray _ xs) = list_all IsZero xs"
| "IsZero (VStruct _ fs) = list_all (\<lambda>fv. IsZero (snd fv)) fs"

section \<open>Errors\<close>

text \<open>
  What the codec reports: a syntax error, a JSON value of the named sort that does not fit
  the Go type, or a Go type that has no encoding. \<open>Unmodelled\<close> marks the cases that the
  instance of the codec further down does not cover.
\<close>

datatype codec_error =
    SyntaxError
  | UnmarshalTypeError string gotype
  | UnsupportedTypeError gotype
  | Unmodelled

text \<open>
  An error of the package is kept as the call that builds it: the format string of
  \<^verbatim>\<open>fmt.Errorf\<close> with its arguments (\<open>ArgT v\<close> for an argument printed with \<^verbatim>\<open>%T\<close>, of
  which only the type matters, \<open>ArgQ\<close> for a string printed with \<^verbatim>\<open>%q\<close>, \<open>ArgV\<close> for an error
  printed with \<^verbatim>\<open>%v\<close>), the text of \<^verbatim>\<open>errors.New\<close>, or an error of the codec passed on.
\<close>

datatype error =
    fmt_Errorf string "fmt_arg list"
  | errors_New string
  | CodecError codec_error
and fmt_arg =
    ArgQ string
  | ArgT gotype
  | ArgV error

section \<open>The parts of \<^verbatim>\<open>encoding/json\<close> and \<^verbatim>\<open>strings\<close> that the package calls\<close>

text \<open>
  A Go map with string keys is an association list read by \<open>map_of\<close>: the first pair of
  a key is the entry. \<^verbatim>\<open>m[k] = v\<close> is \<open>AList.update\<close>, \<^verbatim>\<open>delete(m, k)\<close> is \<open>AList.delete\<close>,
  \<^verbatim>\<open>range m\<close> walks \<open>AList.clearjunk m\<close>. A map variable is nil (\<open>None\<close>) or holds a map.
\<close>

type_synonym 'v gomap = "(string \<times> 'v) list"

definition gomap_index :: "'v gomap option \<Rightarrow> string \<Rightarrow> 'v option" where
  "gomap_index m k = (case m of None \<Rightarrow> None | Some kvs \<Rightarrow> map_of kvs k)"

definition gomap_delete :: "string \<Rightarrow> 'v gomap option \<Rightarrow> 'v gomap option" where
  "gomap_delete k m = map_option (AList.delete k) m"

definition gomap_len :: "'v gomap option \<Rightarrow> nat" where
  "gomap_len m = (case m of None \<Rightarrow> 0 | Some kvs \<Rightarrow> length (AList.clearjunk kvs))"

definition gomap_range :: "'v gomap option \<Rightarrow> (string \<times> 'v) list" where
  "gomap_range m = (case m of None \<Rightarrow> [] | Some kvs \<Rightarrow> AList.clearjunk kvs)"

text \<open>
  \<^verbatim>\<open>json.Unmarshal(data, &m)\<close> for \<^verbatim>\<open>m\<close> of type \<^verbatim>\<open>map[string]json.RawMessage\<close>. A text that is
  not JSON, or a value that is neither an object nor null, is an error and leaves \<^verbatim>\<open>m\<close> as
  it was. The value null sets \<^verbatim>\<open>m\<close> to nil. For an object, Unmarshal allocates a map only if
  \<^verbatim>\<open>m\<close> is nil; otherwise it reuses the map and keeps its entries; then it stores the members
  in the order of the text. (The type of the target, named in the type error, is written
  \<open>TMap TNil\<close>: raw messages are not among the types modelled.)
\<close>

fun json_sort :: "json \<Rightarrow> string" where
  "json_sort JNull = ''null''"
| "json_sort (JBool _) = ''bool''"
| "json_sort (JNumber _) = ''number''"
| "json_sort (JString _) = ''string''"
| "json_sort (JArray _) = ''array''"
| "json_sort (JObject _) = ''object''"

fun json_Unmarshal_map ::
  "wire \<Rightarrow> json gomap option \<Rightarrow> codec_error + json gomap option" where
  "json_Unmarshal_map Malformed m = Inl SyntaxError"
| "json_Unmarshal_map (Valid JNull) m = Inr None"
| "json_Unmarshal_map (Valid (JObject kvs)) m =
     Inr (Some (foldl (\<lambda>acc (k, v). AList.update k v acc)
                      (case m of None \<Rightarrow> [] | Some old \<Rightarrow> old) kvs))"
| "json_Unmarshal_map (Valid j) m = Inl (UnmarshalTypeError (json_sort j) (TMap TNil))"

text \<open>
  The values of the working map of \<^verbatim>\<open>ToJSON\<close>, of type \<^verbatim>\<open>map[string]any\<close>: a retained raw
  message, or the value of a field.
\<close>

datatype anyval = Raw json | Val goval

text \<open>
  \<^verbatim>\<open>json.Marshal\<close> of a \<^verbatim>\<open>map[string]any\<close>: the keys are sorted, each entry is encoded in
  that order, and the first failure is the result. A raw message is written as it is;
  a Go value goes through the encoder \<open>enc\<close> of the codec.
\<close>

fun marshal_any :: "(goval \<Rightarrow> codec_error + json) \<Rightarrow> anyval \<Rightarrow> codec_error + json" where
  "marshal_any enc (Raw j) = Inr j"
| "marshal_any enc (Val v) = enc v"

fun marshal_members ::
  "(goval \<Rightarrow> codec_error + json) \<Rightarrow> (string \<times> anyval) list \<Rightarrow>
   codec_error + (string \<times> json) list" where
  "marshal_members enc [] = Inr []"
| "marshal_members enc ((k, a) # rest) =
     (case marshal_any enc a of
        Inl e \<Rightarrow> Inl e
      | Inr j \<Rightarrow>
         (case marshal_members enc rest of
            Inl e \<Rightarrow> Inl e
          | Inr kvs \<Rightarrow> Inr ((k, j) # kvs)))"

definition json_Marshal_map ::
  "(goval \<Rightarrow> codec_error + json) \<Rightarrow> anyval gomap \<Rightarrow> error + json" where
  "json_Marshal_map enc m =
     (case marshal_members enc (sort_key fst (AList.clearjunk m)) of
        Inl e \<Rightarrow> Inl (CodecError e)
      | Inr kvs \<Rightarrow> Inr (JObject kvs))"

text \<open>\<^verbatim>\<open>strings.Split(s, sep)\<close> for a separator of one character.\<close>

fun strings_Split :: "string \<Rightarrow> char \<Rightarrow> string list" where
  "strings_Split [] sep = [[]]"
| "strings_Split (c # cs) sep =
     (if c = sep then [] # strings_Split cs sep
      else (case strings_Split cs sep of
              [] \<Rightarrow> [[c]]
            | w # ws \<Rightarrow> (c # w) # ws))"

section \<open>\<^verbatim>\<open>jsonobj/retain.go\<close>\<close>

record Retain =
  raw :: "json gomap option"

record jsonTag =
  tag :: "string list"
  field :: StructField

text \<open>
  \<^verbatim>\<open>t.tag[0]\<close> is in range for every tag that \<open>forJSONField\<close> builds, since
  \<open>strings_Split\<close> never returns the empty list (lemma \<open>strings_Split_not_Nil\<close>).
\<close>

definition name :: "jsonTag \<Rightarrow> string" where
  "name t =
     (case tag t of
        [] \<Rightarrow> Name (field t)
      | n # _ \<Rightarrow> if n \<noteq> [] then n else Name (field t))"

definition omitEmpty :: "jsonTag \<Rightarrow> bool" where
  "omitEmpty t = (if length (tag t) < 2 then False else tag t ! 1 = ''omitempty'')"

definition isZero :: "goval \<Rightarrow> bool" where
  "isZero v =
     (case Kind_of v of
        KArray \<Rightarrow> Len v = 0
      | KMap \<Rightarrow> Len v = 0
      | KSlice \<Rightarrow> Len v = 0
      | _ \<Rightarrow> IsZero v)"

definition ensureStruct :: "goval \<Rightarrow> bool \<Rightarrow> goval \<times> bool" where
  "ensureStruct obj requirePtr =
     (if Kind_of obj = KPointer then (Elem obj, Kind_of (Elem obj) = KStruct)
      else if requirePtr then (obj, False)
      else (obj, Kind_of obj = KStruct))"

text \<open>
  The fields of a struct value (\<^verbatim>\<open>rt.Field(f)\<close> with \<^verbatim>\<open>rv.Field(f)\<close>, for \<^verbatim>\<open>f\<close> below
  \<^verbatim>\<open>rt.NumField()\<close>), and the struct with its fields replaced.
\<close>

fun Fields :: "goval \<Rightarrow> (StructField \<times> goval) list" where
  "Fields (VStruct _ fs) = fs"
| "Fields _ = []"

fun with_Fields :: "goval \<Rightarrow> (StructField \<times> goval) list \<Rightarrow> goval" where
  "with_Fields (VStruct n _) fs = VStruct n fs"
| "with_Fields v _ = v"

text \<open>
  \<open>forJSONField\<close> is generic in the result \<^verbatim>\<open>R\<close> of the callback; \<open>zeroRet\<close> is the zero
  value of \<^verbatim>\<open>R\<close>. The callbacks of the package are closures that write to a variable of
  the caller (the raw map, the working map, the set of names seen) and, in \<^verbatim>\<open>FromJSON\<close>,
  to the field: here a callback takes the state \<open>s\<close> and returns its result, the value of
  the field and the state after the call. The loop returns the first result that is not
  \<open>zeroRet\<close>, with the fields and the state as they are at that moment.
\<close>

fun forJSONField ::
  "(jsonTag \<Rightarrow> goval \<Rightarrow> 's \<Rightarrow> 'r \<times> goval \<times> 's) \<Rightarrow> 'r \<Rightarrow>
   (StructField \<times> goval) list \<Rightarrow> 's \<Rightarrow> 'r \<times> (StructField \<times> goval) list \<times> 's" where
  "forJSONField fn zeroRet [] s = (zeroRet, [], s)"
| "forJSONField fn zeroRet ((ft, v) # rest) s =
     (if \<not> IsExported ft then
        (case forJSONField fn zeroRet rest s of (r, rest', s') \<Rightarrow> (r, (ft, v) # rest', s'))
      else
        let tagValue = Tag_Get (Tag ft) ''json'' in
        if tagValue = ''-'' then
          (case forJSONField fn zeroRet rest s of (r, rest', s') \<Rightarrow> (r, (ft, v) # rest', s'))
        else
          let jt = \<lparr>tag = strings_Split tagValue CHR '','', field = ft\<rparr> in
          (case fn jt v s of (ret, v', s') \<Rightarrow>
             if ret \<noteq> zeroRet then (ret, (ft, v') # rest, s')
             else (case forJSONField fn zeroRet rest s' of
                     (r, rest', s'') \<Rightarrow> (r, (ft, v') # rest', s''))))"

text \<open>
  The callback of \<^verbatim>\<open>FromJSON\<close>; \<open>dec fieldJSON v\<close> is
  \<^verbatim>\<open>json.Unmarshal(fieldJSON, v.Addr().Interface())\<close>: the value of the field after the
  call, and the error if there is one.
\<close>

definition FromJSON_field ::
  "(json \<Rightarrow> goval \<Rightarrow> goval \<times> codec_error option) \<Rightarrow>
   jsonTag \<Rightarrow> goval \<Rightarrow> json gomap option \<Rightarrow> error option \<times> goval \<times> json gomap option" where
  "FromJSON_field dec t v m =
     (case gomap_index m (name t) of
        None \<Rightarrow> (None, v, m)
      | Some fieldJSON \<Rightarrow>
          (case dec fieldJSON v of
             (v', err) \<Rightarrow> (map_option CodecError err, v', gomap_delete (name t) m)))"

text \<open>
  \<^verbatim>\<open>FromJSON\<close> writes to the receiver and, through the pointer \<^verbatim>\<open>obj\<close>, to the record: the
  result is the error (\<open>None\<close> for nil), the receiver and \<^verbatim>\<open>obj\<close> after the call.
\<close>

definition FromJSON ::
  "(json \<Rightarrow> goval \<Rightarrow> goval \<times> codec_error option) \<Rightarrow>
   Retain \<Rightarrow> wire \<Rightarrow> goval \<Rightarrow> error option \<times> Retain \<times> goval" where
  "FromJSON dec r data obj =
     (case ensureStruct obj True of (rv, ok) \<Rightarrow>
        if \<not> ok then
          (Some (fmt_Errorf ''FromJSON requires a struct pointer, got %T'' [ArgT (TypeOf obj)]),
           r, obj)
        else
          (case json_Unmarshal_map data (raw r) of
             Inl e \<Rightarrow> (Some (CodecError e), r, obj)
           | Inr m \<Rightarrow>
               (case forJSONField (FromJSON_field dec) None (Fields rv) m of
                  (err, fs', m') \<Rightarrow>
                    if err \<noteq> None then
                      (err, r\<lparr>raw := m'\<rparr>, VPtrTo (with_Fields rv fs'))
                    else
                      (None,
                       r\<lparr>raw := (if gomap_len m' = 0 then None else m')\<rparr>,
                       VPtrTo (with_Fields rv fs')))))"

text \<open>The callback of \<^verbatim>\<open>ToJSON\<close>, which writes to the working map \<^verbatim>\<open>all\<close>.\<close>

definition ToJSON_field ::
  "jsonTag \<Rightarrow> goval \<Rightarrow> anyval gomap \<Rightarrow> unit \<times> goval \<times> anyval gomap" where
  "ToJSON_field t v all =
     (if omitEmpty t \<and> isZero v then ((), v, all)
      else ((), v, AList.update (name t) (Val v) all))"

definition ToJSON ::
  "(goval \<Rightarrow> codec_error + json) \<Rightarrow> Retain \<Rightarrow> goval \<Rightarrow> error + json" where
  "ToJSON enc r obj =
     (case ensureStruct obj False of (rv, ok) \<Rightarrow>
        if \<not> ok then
          Inl (fmt_Errorf ''ToJSON requires a struct, got %T'' [ArgT (TypeOf obj)])
        else
          let all = foldl (\<lambda>acc (k, v). AList.update k (Raw v) acc) [] (gomap_range (raw r)) in
          (case forJSONField ToJSON_field () (Fields rv) all of
             (_, _, all') \<Rightarrow> json_Marshal_map enc all'))"

definition verifyNoDuplicateFieldNames_field ::
  "jsonTag \<Rightarrow> goval \<Rightarrow> string list \<Rightarrow> error option \<times> goval \<times> string list" where
  "verifyNoDuplicateFieldNames_field t v exists =
     (if name t \<in> set exists then
        (Some (fmt_Errorf ''duplicate JSON field %q'' [ArgQ (name t)]), v, exists)
      else (None, v, name t # exists))"

definition verifyNoDuplicateFieldNames :: "goval \<Rightarrow> error option" where
  "verifyNoDuplicateFieldNames rv =
     fst (forJSONField verifyNoDuplicateFieldNames_field None (Fields rv) [])"

definition verifyNoUnsupportedTags_field ::
  "jsonTag \<Rightarrow> goval \<Rightarrow> unit \<Rightarrow> error option \<times> goval \<times> unit" where
  "verifyNoUnsupportedTags_field jt v u =
     (if length (tag jt) \<le> 1 then (None, v, u)
      else
        (case find (\<lambda>t. t \<noteq> [] \<and> t \<noteq> ''omitempty'') (drop 1 (tag jt)) of
           Some t \<Rightarrow>
             (Some (fmt_Errorf ''field %q has unsupported tag %q'' [ArgQ (name jt), ArgQ t]),
              v, u)
         | None \<Rightarrow> (None, v, u)))"

definition verifyNoUnsupportedTags :: "goval \<Rightarrow> error option" where
  "verifyNoUnsupportedTags rv =
     fst (forJSONField verifyNoUnsupportedTags_field None (Fields rv) ())"

text \<open>
  \<^verbatim>\<open>Retainable\<close>; the deferred function wraps every error in
  \<^verbatim>\<open>"%T not Retainable: %v"\<close>.
\<close>

definition Retainable :: "goval \<Rightarrow> error option" where
  "Retainable obj =
     (let retErr =
        (case ensureStruct obj True of (rv, ok) \<Rightarrow>
           if \<not> ok then Some (errors_New ''requires struct pointer'')
           else
             (case verifyNoDuplicateFieldNames rv of
                Some err \<Rightarrow> Some err
              | None \<Rightarrow>
                  (case verifyNoUnsupportedTags rv of
                     Some err \<Rightarrow> Some err
                   | None \<Rightarrow> None)))
      in case retErr of
           None \<Rightarrow> None
         | Some err \<Rightarrow>
             Some (fmt_Errorf ''%T not Retainable: %v'' [ArgT (TypeOf obj), ArgV err]))"

section \<open>\<^verbatim>\<open>ToJSON\<close> with the maps in a store\<close>

text \<open>
  A Go map is a reference. To see what \<^verbatim>\<open>ToJSON\<close> writes to, the maps are put in a store:
  a list of cells, the address of a map being its index; \<^verbatim>\<open>make\<close> takes the next free
  cell. The receiver holds the address of its raw map (\<open>None\<close> for nil); the raw messages
  of that cell are the entries \<open>Raw j\<close>. The result is the result of \<^verbatim>\<open>ToJSON\<close> with the
  store, the receiver and the record after the call.
\<close>

type_synonym store = "anyval gomap list"

record RetainRef =
  raw_ref :: "nat option"

definition make_map :: "store \<Rightarrow> nat \<times> store" where
  "make_map h = (length h, h @ [[]])"

definition map_assign :: "nat \<Rightarrow> string \<Rightarrow> anyval \<Rightarrow> store \<Rightarrow> store" where
  "map_assign a k v h = h[a := AList.update k v (h ! a)]"

definition range_ref :: "store \<Rightarrow> nat option \<Rightarrow> (string \<times> anyval) list" where
  "range_ref h m = (case m of None \<Rightarrow> [] | Some a \<Rightarrow> AList.clearjunk (h ! a))"

definition ToJSON_field_store ::
  "nat \<Rightarrow> jsonTag \<Rightarrow> goval \<Rightarrow> store \<Rightarrow> unit \<times> goval \<times> store" where
  "ToJSON_field_store all t v h =
     (if omitEmpty t \<and> isZero v then ((), v, h)
      else ((), v, map_assign all (name t) (Val v) h))"

definition ToJSON_store ::
  "(goval \<Rightarrow> codec_error + json) \<Rightarrow> store \<Rightarrow> RetainRef \<Rightarrow> goval \<Rightarrow>
   (error + json) \<times> store \<times> RetainRef \<times> goval" where
  "ToJSON_store enc h r obj =
     (case ensureStruct obj False of (rv, ok) \<Rightarrow>
        if \<not> ok then
          (Inl (fmt_Errorf ''ToJSON requires a struct, got %T'' [ArgT (TypeOf obj)]), h, r, obj)
        else
          (case make_map h of (all, h1) \<Rightarrow>
             let h2 = foldl (\<lambda>acc (k, v). map_assign all k v acc) h1 (range_ref h1 (raw_ref r)) in
             (case forJSONField (ToJSON_field_store all) () (Fields rv) h2 of
                (_, fs', h3) \<Rightarrow>
                  (json_Marshal_map enc (h3 ! all), h3, r,
                   if Kind_of obj = KPointer then VPtrTo (with_Fields rv fs')
                   else with_Fields rv fs'))))"

text \<open>What the callback does to the store for one visited field.\<close>

definition overlay_store :: "nat \<Rightarrow> store \<Rightarrow> jsonTag \<times> goval \<Rightarrow> store" where
  "overlay_store a h tv =
     (case tv of (t, v) \<Rightarrow>
        if omitEmpty t \<and> isZero v then h else map_assign a (name t) (Val v) h)"

section \<open>Field descriptors and documents, as the specification speaks of them\<close>

text \<open>
  The specification describes a type by its field descriptors: the fields that are
  exported and not tagged with the bare \<^verbatim>\<open>-\<close>, in declaration order, each with its
  canonical name and its flags. These definitions say what the loop of \<open>forJSONField\<close>
  visits; the lemmas below prove that it does.
\<close>

definition visited :: "StructField \<Rightarrow> bool" where
  "visited ft = (IsExported ft \<and> Tag_Get (Tag ft) ''json'' \<noteq> ''-'')"

definition jsonTag_of :: "StructField \<Rightarrow> jsonTag" where
  "jsonTag_of ft = \<lparr>tag = strings_Split (Tag_Get (Tag ft) ''json'') CHR '','', field = ft\<rparr>"

definition jsonFields :: "(StructField \<times> goval) list \<Rightarrow> (jsonTag \<times> goval) list" where
  "jsonFields fs = map (\<lambda>(ft, v). (jsonTag_of ft, v)) (filter (\<lambda>(ft, v). visited ft) fs)"

definition fieldNames :: "(StructField \<times> goval) list \<Rightarrow> string list" where
  "fieldNames fs = map (\<lambda>(t, v). name t) (jsonFields fs)"

definition supported_modifier :: "string \<Rightarrow> bool" where
  "supported_modifier m = (m = [] \<or> m = ''omitempty'')"

text \<open>A descriptor all of whose components after the name are modifiers that are understood.\<close>

definition tag_supported :: "jsonTag \<Rightarrow> bool" where
  "tag_supported t = (\<forall>m \<in> set (drop 1 (tag t)). supported_modifier m)"

text \<open>The fields that \<^verbatim>\<open>ToJSON\<close> does not omit, under their canonical names.\<close>

definition emitted :: "(StructField \<times> goval) list \<Rightarrow> (string \<times> goval) list" where
  "emitted fs =
     map (\<lambda>(t, v). (name t, v)) (filter (\<lambda>(t, v). \<not> (omitEmpty t \<and> isZero v)) (jsonFields fs))"

text \<open>
  The loop of \<open>forJSONField\<close> over the descriptors alone: the result and the state, without
  the fields.
\<close>

fun forDescriptors ::
  "(jsonTag \<Rightarrow> goval \<Rightarrow> 's \<Rightarrow> 'r \<times> goval \<times> 's) \<Rightarrow> 'r \<Rightarrow>
   (jsonTag \<times> goval) list \<Rightarrow> 's \<Rightarrow> 'r \<times> 's" where
  "forDescriptors fn zeroRet [] s = (zeroRet, s)"
| "forDescriptors fn zeroRet ((t, v) # rest) s =
     (case fn t v s of (ret, v', s') \<Rightarrow>
        if ret \<noteq> zeroRet then (ret, s') else forDescriptors fn zeroRet rest s')"

text \<open>What the callback of \<^verbatim>\<open>ToJSON\<close> does to the working map for one visited field.\<close>

definition overlay :: "anyval gomap \<Rightarrow> jsonTag \<times> goval \<Rightarrow> anyval gomap" where
  "overlay all tv =
     (case tv of (t, v) \<Rightarrow>
        if omitEmpty t \<and> isZero v then all else AList.update (name t) (Val v) all)"

text \<open>
  The working map of \<^verbatim>\<open>ToJSON\<close> when it is handed to \<^verbatim>\<open>json.Marshal\<close>: the copy of the
  raw map with the fields laid over it.
\<close>

definition working_map :: "Retain \<Rightarrow> (StructField \<times> goval) list \<Rightarrow> anyval gomap" where
  "working_map r fs =
     foldl overlay
       (foldl (\<lambda>acc (k, v). AList.update k (Raw v) acc) [] (gomap_range (raw r)))
       (jsonFields fs)"

text \<open>
  The empty values as the specification lists them: the zero value of a scalar, a slice or
  a map of length zero, an array of length zero; for the kinds it does not list (nil,
  functions, pointers, structs) the zero value of the type.
\<close>

fun empty_value :: "goval \<Rightarrow> bool" where
  "empty_value (VBool b) = (\<not> b)"
| "empty_value (VInt n) = (n = 0)"
| "empty_value (VString s) = (s = [])"
| "empty_value (VSlice _ xs) = (case xs of None \<Rightarrow> True | Some l \<Rightarrow> length l = 0)"
| "empty_value (VMap _ m) = (case m of None \<Rightarrow> True | Some kvs \<Rightarrow> kvs = [])"
| "empty_value (VArray _ xs) = (length xs = 0)"
| "empty_value v = IsZero v"

text \<open>A struct, or a pointer to one, with the fields \<open>fs\<close>.\<close>

definition struct_with :: "goval \<Rightarrow> (StructField \<times> goval) list \<Rightarrow> bool" where
  "struct_with obj fs = (\<exists>n. obj = VStruct n fs \<or> obj = VPtrTo (VStruct n fs))"

text \<open>The retained state of a receiver, as a mapping; nil and the empty map are the same.\<close>

definition retained :: "Retain \<Rightarrow> string \<Rightarrow> json option" where
  "retained r = gomap_index (raw r)"

text \<open>
  A document as a mapping from keys to values: of a key that occurs more than once, the
  last member counts, as in every Go map decoded from the text. Two documents are equal
  under key-set and value equality when these mappings are equal.
\<close>

fun members :: "json \<Rightarrow> string \<Rightarrow> json option" where
  "members (JObject kvs) = map_of (rev kvs)"
| "members _ = (\<lambda>k. None)"

definition is_struct :: "goval \<Rightarrow> bool" where
  "is_struct obj = (case obj of VStruct _ _ \<Rightarrow> True | _ \<Rightarrow> False)"

definition is_struct_pointer :: "goval \<Rightarrow> bool" where
  "is_struct_pointer obj = (case obj of VPtrTo v \<Rightarrow> is_struct v | _ \<Rightarrow> False)"

text \<open>The messages that the specification gives for the two validation failures.\<close>

definition spec_duplicate_error :: "string \<Rightarrow> error" where
  "spec_duplicate_error n = fmt_Errorf ''duplicate field name %q'' [ArgQ n]"

definition spec_unsupported_error :: "string \<Rightarrow> string \<Rightarrow> error" where
  "spec_unsupported_error n t = fmt_Errorf ''field %q has unsupported tag %q'' [ArgQ n, ArgQ t]"

section \<open>An instance of the codec, and the records of the tests\<close>

text \<open>
  The theorems hold for every decoder \<open>dec\<close> and encoder \<open>enc\<close>. To run the package on the
  records of its tests, this is \<^verbatim>\<open>encoding/json\<close> on the values those records hold:
  booleans, integers, strings, and for the encoder also nil, pointers, slices, arrays
  and maps of them. What the instance does not cover is marked \<open>Unmodelled\<close>.
\<close>

fun digit_char :: "nat \<Rightarrow> char" where
  "digit_char n = char_of (48 + n)"

fun decimal :: "nat \<Rightarrow> string" where
  "decimal n = (if n < 10 then [digit_char n] else decimal (n div 10) @ [digit_char (n mod 10)])"

definition FormatInt :: "int \<Rightarrow> string" where
  "FormatInt i = (if i < 0 then CHR ''-'' # decimal (nat (- i)) else decimal (nat i))"

definition digit_val :: "char \<Rightarrow> nat option" where
  "digit_val c =
     (let n = (of_char c :: nat) in if 48 \<le> n \<and> n \<le> 57 then Some (n - 48) else None)"

fun parse_digits :: "nat \<Rightarrow> string \<Rightarrow> nat option" where
  "parse_digits acc [] = Some acc"
| "parse_digits acc (c # cs) =
     (case digit_val c of None \<Rightarrow> None | Some d \<Rightarrow> parse_digits (10 * acc + d) cs)"

text \<open>\<^verbatim>\<open>strconv.ParseInt(s, 10, 64)\<close> on the literal of a JSON number.\<close>

definition ParseInt :: "string \<Rightarrow> int option" where
  "ParseInt s =
     (case s of
        [] \<Rightarrow> None
      | c # cs \<Rightarrow>
          if c = CHR ''-'' then
            (if cs = [] then None
             else (case parse_digits 0 cs of
                     None \<Rightarrow> None
                   | Some n \<Rightarrow> if int n \<le> 2 ^ 63 then Some (- int n) else None))
          else
            (case parse_digits 0 s of
               None \<Rightarrow> None
             | Some n \<Rightarrow> if int n < 2 ^ 63 then Some (int n) else None))"

fun json_Unmarshal_value :: "json \<Rightarrow> goval \<Rightarrow> goval \<times> codec_error option" where
  "json_Unmarshal_value JNull (VPtrTo v) = (VNilPtr (TypeOf v), None)"
| "json_Unmarshal_value JNull (VSlice t _) = (VSlice t None, None)"
| "json_Unmarshal_value JNull (VMap t _) = (VMap t None, None)"
| "json_Unmarshal_value JNull v = (v, None)"
| "json_Unmarshal_value (JBool b) (VBool _) = (VBool b, None)"
| "json_Unmarshal_value (JString s) (VString _) = (VString s, None)"
| "json_Unmarshal_value (JNumber lit) (VInt n) =
     (case ParseInt lit of
        Some i \<Rightarrow> (VInt i, None)
      | None \<Rightarrow> (VInt n, Some (UnmarshalTypeError (''number '' @ lit) TInt)))"
| "json_Unmarshal_value j (VBool b) = (VBool b, Some (UnmarshalTypeError (json_sort j) TBool))"
| "json_Unmarshal_value j (VInt n) = (VInt n, Some (UnmarshalTypeError (json_sort j) TInt))"
| "json_Unmarshal_value j (VString s) =
     (VString s, Some (UnmarshalTypeError (json_sort j) TString))"
| "json_Unmarshal_value j (VFunc f) = (VFunc f, Some (UnmarshalTypeError (json_sort j) TFunc))"
| "json_Unmarshal_value j v = (v, Some Unmodelled)"

fun sequence_sum :: "('e + 'a) list \<Rightarrow> 'e + 'a list" where
  "sequence_sum [] = Inr []"
| "sequence_sum (Inl e # _) = Inl e"
| "sequence_sum (Inr x # rest) =
     (case sequence_sum rest of Inl e \<Rightarrow> Inl e | Inr xs \<Rightarrow> Inr (x # xs))"

fun member_sum :: "string \<times> ('e + 'a) \<Rightarrow> 'e + (string \<times> 'a)" where
  "member_sum (k, Inl e) = Inl e"
| "member_sum (k, Inr x) = Inr (k, x)"

fun json_Marshal_value :: "goval \<Rightarrow> codec_error + json" where
  "json_Marshal_value VNil = Inr JNull"
| "json_Marshal_value (VBool b) = Inr (JBool b)"
| "json_Marshal_value (VInt n) = Inr (JNumber (FormatInt n))"
| "json_Marshal_value (VString s) = Inr (JString s)"
| "json_Marshal_value (VFunc _) = Inl (UnsupportedTypeError TFunc)"
| "json_Marshal_value (VNilPtr _) = Inr JNull"
| "json_Marshal_value (VPtrTo v) = json_Marshal_value v"
| "json_Marshal_value (VSlice _ None) = Inr JNull"
| "json_Marshal_value (VSlice _ (Some xs)) =
     (case sequence_sum (map json_Marshal_value xs) of
        Inl e \<Rightarrow> Inl e
      | Inr js \<Rightarrow> Inr (JArray js))"
| "json_Marshal_value (VArray _ xs) =
     (case sequence_sum (map json_Marshal_value xs) of
        Inl e \<Rightarrow> Inl e
      | Inr js \<Rightarrow> Inr (JArray js))"
| "json_Marshal_value (VMap _ None) = Inr JNull"
| "json_Marshal_value (VMap _ (Some m)) =
     (case sequence_sum (map member_sum
              (sort_key fst (AList.clearjunk (map (\<lambda>(k, v). (k, json_Marshal_value v)) m)))) of
        Inl e \<Rightarrow> Inl e
      | Inr kvs \<Rightarrow> Inr (JObject kvs))"
| "json_Marshal_value (VStruct _ _) = Inl Unmodelled"

text \<open>
  \<^verbatim>\<open>Page\<close> of the example test: the receiver \<^verbatim>\<open>raw\<close> (not exported), \<^verbatim>\<open>Title\<close> and
  \<^verbatim>\<open>Slug\<close>. The receiver of a record is passed to the operations on its own, so the
  field \<^verbatim>\<open>raw\<close> only holds its place.
\<close>

definition retain_field :: "string \<Rightarrow> StructField \<times> goval" where
  "retain_field pkg =
     (\<lparr>Name = ''raw'', PkgPath = pkg, Tag = []\<rparr>, VStruct ''jsonobj.Retain'' [])"

definition exported_field :: "string \<Rightarrow> string \<Rightarrow> StructField" where
  "exported_field n t = \<lparr>Name = n, PkgPath = [], Tag = (if t = [] then [] else [(''json'', t)])\<rparr>"

definition Page :: "string \<Rightarrow> string \<Rightarrow> goval" where
  "Page title slug =
     VStruct ''jsonobj_test.Page''
       [retain_field ''jsonobj_test'',
        (exported_field ''Title'' ''title'', VString title),
        (exported_field ''Slug'' ''slug'', VString slug)]"

text \<open>\<^verbatim>\<open>S\<close> of the round-trip test: \<^verbatim>\<open>Name string `json:"name,omitempty"`\<close>.\<close>

definition S :: "string \<Rightarrow> goval" where
  "S n =
     VStruct ''jsonobj.S''
       [retain_field ''jsonobj'', (exported_field ''Name'' ''name,omitempty'', VString n)]"

text \<open>\<^verbatim>\<open>DuplicateNameTags\<close> and \<^verbatim>\<open>UnsupportedStringTag\<close> of \<^verbatim>\<open>TestRetainable\<close>.\<close>

definition DuplicateNameTags :: goval where
  "DuplicateNameTags =
     VStruct ''jsonobj.DuplicateNameTags''
       [(exported_field ''Name1'' ''name'', VString []),
        (exported_field ''Name2'' ''name'', VString [])]"

definition UnsupportedStringTag :: goval where
  "UnsupportedStringTag =
     VStruct ''jsonobj.UnsupportedStringTag'' [(exported_field ''Age'' '',string'', VInt 0)]"

text \<open>The records of \<^verbatim>\<open>TestRetain_ToJSON_Ignore\<close>, and one with a tag of three components.\<close>

definition IgnoreStruct :: "string \<Rightarrow> goval" where
  "IgnoreStruct s = VStruct ''struct'' [(exported_field ''IgnoreField'' ''-'', VString s)]"

definition DashStruct :: "string \<Rightarrow> string \<Rightarrow> goval" where
  "DashStruct t s = VStruct ''struct'' [(exported_field ''DashName'' t, VString s)]"

definition ThreeStruct :: "string \<Rightarrow> goval" where
  "ThreeStruct s = VStruct ''struct'' [(exported_field ''Name'' ''name,,omitempty'', VString s)]"

text \<open>The record of \<^verbatim>\<open>TestRetain_ToJSON_OmitEmpty\<close> with one field of each kind.\<close>

definition KindsStruct :: "goval \<Rightarrow> goval \<Rightarrow> goval \<Rightarrow> goval \<Rightarrow> goval" where
  "KindsStruct str list mp arr =
     VStruct ''struct''
       [(exported_field ''Str'' '',omitempty'', str),
        (exported_field ''List'' '',omitempty'', list),
        (exported_field ''Map'' '',omitempty'', mp),
        (exported_field ''Arr'' '',omitempty'', arr)]"

section \<open>The loop over the fields\<close>


lemma strings_Split_not_Nil: "strings_Split s c \<noteq> []"
  by (induction s) (auto split: list.splits)

lemma strings_Split_Cons_other:
  "x \<noteq> c \<Longrightarrow> strings_Split (x # s) c = (x # hd (strings_Split s c)) # tl (strings_Split s c)"
  using strings_Split_not_Nil [of s c] by (cases "strings_Split s c") auto

lemma jsonFields_Nil [simp]: "jsonFields [] = []"
  by (simp add: jsonFields_def)

lemma jsonFields_Cons:
  "jsonFields ((ft, v) # fs) = (if visited ft then (jsonTag_of ft, v) # jsonFields fs else jsonFields fs)"
  by (simp add: jsonFields_def)

lemma jsonFields_append: "jsonFields (xs @ ys) = jsonFields xs @ jsonFields ys"
  by (simp add: jsonFields_def)

lemma forJSONField_skip:
  "\<not> visited ft \<Longrightarrow>
   forJSONField fn z ((ft, v) # rest) s =
     (case forJSONField fn z rest s of (r, rest', s') \<Rightarrow> (r, (ft, v) # rest', s'))"
  by (auto simp: visited_def Let_def)

lemma forJSONField_visit:
  "visited ft \<Longrightarrow>
   forJSONField fn z ((ft, v) # rest) s =
     (case fn (jsonTag_of ft) v s of (ret, v', s') \<Rightarrow>
        if ret \<noteq> z then (ret, (ft, v') # rest, s')
        else (case forJSONField fn z rest s' of (r, rest', s'') \<Rightarrow> (r, (ft, v') # rest', s'')))"
  by (auto simp: visited_def Let_def jsonTag_of_def)

declare forJSONField.simps(2) [simp del]

lemma length_forJSONField: "length (fst (snd (forJSONField fn z fs s))) = length fs"
proof (induction fs arbitrary: s)
  case Nil
  show ?case by simp
next
  case (Cons p fs)
  obtain ft v where p: "p = (ft, v)" by (cases p)
  show ?case
  proof (cases "visited ft")
    case True
    obtain ret v' s' where f: "fn (jsonTag_of ft) v s = (ret, v', s')" by (cases "fn (jsonTag_of ft) v s")
    show ?thesis
      using Cons.IH [of s'] True f unfolding p
      by (cases "forJSONField fn z fs s'") (auto simp: forJSONField_visit)
  next
    case False
    then show ?thesis
      using Cons.IH [of s] unfolding p
      by (cases "forJSONField fn z fs s") (auto simp: forJSONField_skip)
  qed
qed

text \<open>a callback that never stops the loop and leaves the field as it is\<close>
lemma forJSONField_fold:
  assumes "\<forall>t v s. fn t v s = (z, v, g s (t, v))"
  shows "forJSONField fn z fs s = (z, fs, foldl g s (jsonFields fs))"
proof (induction fs arbitrary: s)
  case Nil
  show ?case by simp
next
  case (Cons p fs)
  obtain ft v where p: "p = (ft, v)" by (cases p)
  show ?case
  proof (cases "visited ft")
    case True
    have f: "fn (jsonTag_of ft) v s = (z, v, g s (jsonTag_of ft, v))"
      using assms by blast
    show ?thesis
      using True f unfolding p by (simp add: forJSONField_visit jsonFields_Cons Cons.IH)
  next
    case False
    then show ?thesis
      unfolding p by (simp add: forJSONField_skip jsonFields_Cons Cons.IH)
  qed
qed

lemma forJSONField_ToJSON:
  "forJSONField ToJSON_field () fs all = ((), fs, foldl overlay all (jsonFields fs))"
  by (rule forJSONField_fold) (auto simp: ToJSON_field_def overlay_def)

lemma forJSONField_forDescriptors:
  "(fst (forJSONField fn z fs s), snd (snd (forJSONField fn z fs s))) =
     forDescriptors fn z (jsonFields fs) s"
proof (induction fs arbitrary: s)
  case Nil
  show ?case by simp
next
  case (Cons p fs)
  obtain ft v where p: "p = (ft, v)" by (cases p)
  show ?case
  proof (cases "visited ft")
    case True
    obtain ret v' s' where f: "fn (jsonTag_of ft) v s = (ret, v', s')"
      by (cases "fn (jsonTag_of ft) v s")
    show ?thesis
      using Cons.IH [of s'] True f unfolding p
      by (cases "forJSONField fn z fs s'") (auto simp: forJSONField_visit jsonFields_Cons)
  next
    case False
    then show ?thesis
      using Cons.IH [of s] unfolding p
      by (cases "forJSONField fn z fs s") (auto simp: forJSONField_skip jsonFields_Cons)
  qed
qed

lemma forJSONField_result: "fst (forJSONField fn z fs s) = fst (forDescriptors fn z (jsonFields fs) s)"
  using forJSONField_forDescriptors [of fn z fs s] by (metis fst_conv)

lemma forJSONField_state:
  "snd (snd (forJSONField fn z fs s)) = snd (forDescriptors fn z (jsonFields fs) s)"
  using forJSONField_forDescriptors [of fn z fs s] by (metis snd_conv)

lemma forJSONField_insert_skip:
  assumes "\<not> visited ft"
  shows "forJSONField fn z (pre @ (ft, v) # post) s =
     (case forJSONField fn z (pre @ post) s of (r, fs', s') \<Rightarrow>
        (r, take (length pre) fs' @ (ft, v) # drop (length pre) fs', s'))"
proof (induction pre arbitrary: s)
  case Nil
  show ?case using assms by (simp add: forJSONField_skip split: prod.splits)
next
  case (Cons p pre)
  obtain ft' v' where p: "p = (ft', v')" by (cases p)
  show ?case
  proof (cases "visited ft'")
    case True
    obtain ret w s' where f: "fn (jsonTag_of ft') v' s = (ret, w, s')"
      by (cases "fn (jsonTag_of ft') v' s")
    show ?thesis
      using Cons.IH [of s'] True f unfolding p
      by (cases "forJSONField fn z (pre @ post) s'") (auto simp: forJSONField_visit)
  next
    case False
    then show ?thesis
      using Cons.IH [of s] unfolding p
      by (cases "forJSONField fn z (pre @ post) s") (auto simp: forJSONField_skip)
  qed
qed

lemma jsonFields_insert_skip:
  "\<not> visited ft \<Longrightarrow> jsonFields (pre @ (ft, v) # post) = jsonFields (pre @ post)"
  by (simp add: jsonFields_def)

section \<open>Validation\<close>

lemma dup_scan_None:
  "fst (forDescriptors verifyNoDuplicateFieldNames_field None tvs ex) = None \<longleftrightarrow>
     distinct (map (\<lambda>(t, v). name t) tvs) \<and> set (map (\<lambda>(t, v). name t) tvs) \<inter> set ex = {}"
proof (induction tvs arbitrary: ex)
  case Nil
  show ?case by simp
next
  case (Cons p tvs)
  obtain t v where p: "p = (t, v)" by (cases p)
  show ?case
    unfolding p using Cons.IH [of "name t # ex"]
    by (auto simp: verifyNoDuplicateFieldNames_field_def)
qed

lemma dup_scan_Some:
  assumes "map (\<lambda>(t, v). name t) tvs = ps @ d # rest" and "distinct ps"
    and "set ps \<inter> set ex = {}" and "d \<in> set ps \<union> set ex"
  shows "fst (forDescriptors verifyNoDuplicateFieldNames_field None tvs ex) =
     Some (fmt_Errorf ''duplicate JSON field %q'' [ArgQ d])"
  using assms
proof (induction tvs arbitrary: ex ps)
  case Nil
  then show ?case by simp
next
  case (Cons p tvs)
  obtain t v where p: "p = (t, v)" by (cases p)
  show ?case
  proof (cases ps)
    case Nil
    with Cons.prems have "name t = d" "d \<in> set ex" unfolding p by auto
    then show ?thesis unfolding p by (simp add: verifyNoDuplicateFieldNames_field_def)
  next
    case (Cons q qs)
    with Cons.prems have q: "name t = q" and rest: "map (\<lambda>(t, v). name t) tvs = qs @ d # rest"
      unfolding p by auto
    have "q \<notin> set ex" using Cons.prems(3) Cons by auto
    moreover have "fst (forDescriptors verifyNoDuplicateFieldNames_field None tvs (q # ex)) =
        Some (fmt_Errorf ''duplicate JSON field %q'' [ArgQ d])"
      using Cons.prems Cons by (intro Cons.IH [OF rest]) auto
    moreover have "verifyNoDuplicateFieldNames_field t v ex = (None, v, q # ex)"
      using q \<open>q \<notin> set ex\<close> by (simp add: verifyNoDuplicateFieldNames_field_def)
    ultimately show ?thesis unfolding p by simp
  qed
qed

lemma find_unsupported_None:
  "find (\<lambda>t. t \<noteq> [] \<and> t \<noteq> ''omitempty'') ms = None \<longleftrightarrow> (\<forall>m \<in> set ms. supported_modifier m)"
  by (auto simp: find_None_iff supported_modifier_def)

lemma find_unsupported_Some:
  assumes "ms = oks @ bad # others" and "\<forall>m \<in> set oks. supported_modifier m"
    and "\<not> supported_modifier bad"
  shows "find (\<lambda>t. t \<noteq> [] \<and> t \<noteq> ''omitempty'') ms = Some bad"
  using assms(2) unfolding assms(1)
  by (induction oks) (use assms(3) in \<open>auto simp: supported_modifier_def\<close>)

lemma tags_field_None:
  "fst (verifyNoUnsupportedTags_field t v u) = None \<longleftrightarrow> tag_supported t"
proof (cases "length (tag t) \<le> 1")
  case True
  then show ?thesis
    by (simp add: verifyNoUnsupportedTags_field_def tag_supported_def)
next
  case False
  show ?thesis
  proof (cases "find (\<lambda>t. t \<noteq> [] \<and> t \<noteq> ''omitempty'') (drop 1 (tag t))")
    case None
    then show ?thesis
      using False find_unsupported_None [of "drop 1 (tag t)"]
      by (simp add: verifyNoUnsupportedTags_field_def tag_supported_def)
  next
    case (Some b)
    then show ?thesis
      using False find_unsupported_None [of "drop 1 (tag t)"]
      by (simp add: verifyNoUnsupportedTags_field_def tag_supported_def)
  qed
qed

lemma tags_field_Some:
  assumes "drop 1 (tag t) = oks @ bad # others" and "\<forall>m \<in> set oks. supported_modifier m"
    and "\<not> supported_modifier bad"
  shows "verifyNoUnsupportedTags_field t v u =
     (Some (fmt_Errorf ''field %q has unsupported tag %q'' [ArgQ (name t), ArgQ bad]), v, u)"
proof -
  have "\<not> length (tag t) \<le> 1" using assms(1) by (cases "tag t") auto
  then show ?thesis
    using find_unsupported_Some [OF assms] by (simp add: verifyNoUnsupportedTags_field_def)
qed

lemma tags_scan_None:
  "fst (forDescriptors verifyNoUnsupportedTags_field None tvs u) = None \<longleftrightarrow>
     (\<forall>(t, v) \<in> set tvs. tag_supported t)"
proof (induction tvs)
  case Nil
  show ?case by simp
next
  case (Cons p tvs)
  obtain t v where p: "p = (t, v)" by (cases p)
  obtain e w u' where f: "verifyNoUnsupportedTags_field t v u = (e, w, u')"
    by (cases "verifyNoUnsupportedTags_field t v u")
  show ?case
    unfolding p using Cons.IH tags_field_None [of t v u] f by auto
qed

lemma tags_scan_Some:
  assumes "tvs = pre @ (t, v) # post" and "\<forall>(t', v') \<in> set pre. tag_supported t'"
    and "drop 1 (tag t) = oks @ bad # others" and "\<forall>m \<in> set oks. supported_modifier m"
    and "\<not> supported_modifier bad"
  shows "fst (forDescriptors verifyNoUnsupportedTags_field None tvs u) =
     Some (fmt_Errorf ''field %q has unsupported tag %q'' [ArgQ (name t), ArgQ bad])"
  using assms(2) unfolding assms(1)
proof (induction pre)
  case Nil
  show ?case using tags_field_Some [OF assms(3-5)] by simp
next
  case (Cons p pre)
  obtain t' v' where p: "p = (t', v')" by (cases p)
  obtain e w u' where f: "verifyNoUnsupportedTags_field t' v' u = (e, w, u')"
    by (cases "verifyNoUnsupportedTags_field t' v' u")
  have "tag_supported t'" using Cons.prems unfolding p by simp
  then have "e = None" using tags_field_None [of t' v' u] f by simp
  then show ?case unfolding p using Cons f by simp
qed

section \<open>The working map and its encoding\<close>

lemma map_of_foldl_update:
  "map_of (foldl (\<lambda>acc (k, v). AList.update k (f v) acc) acc xs) k =
     (case map_of (rev xs) k of Some v \<Rightarrow> Some (f v) | None \<Rightarrow> map_of acc k)"
proof (induction xs arbitrary: acc)
  case Nil
  show ?case by simp
next
  case (Cons p xs)
  obtain k' v' where p: "p = (k', v')" by (cases p)
  show ?case
    unfolding p by (simp add: Cons.IH update_conv' map_of_append map_add_def split: option.splits)
qed

lemma map_of_rev_distinct: "distinct (map fst xs) \<Longrightarrow> map_of (rev xs) = map_of xs"
  by (subst map_of_inject_set) (simp_all add: rev_map [symmetric])

lemma foldl_overlay_emitted:
  "foldl overlay all tvs =
     foldl (\<lambda>acc (k, v). AList.update k (Val v) acc) all
       (map (\<lambda>(t, v). (name t, v)) (filter (\<lambda>(t, v). \<not> (omitEmpty t \<and> isZero v)) tvs))"
  by (induction tvs arbitrary: all) (auto simp: overlay_def)

lemma map_of_copy:
  "map_of (foldl (\<lambda>acc (k, v). AList.update k (Raw v) acc) [] (gomap_range m)) k =
     map_option Raw (gomap_index m k)"
proof (cases m)
  case None
  then show ?thesis by (simp add: gomap_range_def gomap_index_def)
next
  case (Some kvs)
  have "map_of (rev (AList.clearjunk kvs)) = map_of kvs"
    by (simp add: map_of_rev_distinct map_of_clearjunk)
  then show ?thesis
    using Some by (simp add: map_of_foldl_update gomap_range_def gomap_index_def split: option.splits)
qed

lemma map_of_working_map:
  "map_of (working_map r fs) k =
     (case map_of (rev (emitted fs)) k of
        Some v \<Rightarrow> Some (Val v)
      | None \<Rightarrow> map_option Raw (retained r k))"
proof -
  have "map_of (working_map r fs) k =
      (case map_of (rev (emitted fs)) k of
         Some v \<Rightarrow> Some (Val v)
       | None \<Rightarrow>
           map_of (foldl (\<lambda>acc (k, v). AList.update k (Raw v) acc) [] (gomap_range (raw r))) k)"
    unfolding working_map_def foldl_overlay_emitted emitted_def
    by (rule map_of_foldl_update)
  then show ?thesis
    by (simp only: map_of_copy retained_def)
qed

lemma marshal_members_map_of:
  "marshal_members enc xs = Inr out \<Longrightarrow>
     map fst out = map fst xs \<and>
     (\<forall>k. rel_option (\<lambda>a j. marshal_any enc a = Inr j) (map_of xs k) (map_of out k))"
proof (induction xs arbitrary: out)
  case Nil
  then show ?case by auto
next
  case (Cons p xs)
  obtain k a where p: "p = (k, a)" by (cases p)
  from Cons.prems obtain j rest where j: "marshal_any enc a = Inr j"
    and rest: "marshal_members enc xs = Inr rest" and out: "out = (k, j) # rest"
    unfolding p by (auto split: sum.splits)
  show ?case
    using Cons.IH [OF rest] j unfolding p out by auto
qed

lemma marshal_members_succeeds:
  "(\<forall>(k, a) \<in> set xs. \<exists>j. marshal_any enc a = Inr j) \<Longrightarrow> \<exists>out. marshal_members enc xs = Inr out"
  by (induction xs) (auto split: sum.splits)

lemma sorted_entries:
  "distinct (map fst (sort_key fst (AList.clearjunk m))) \<and>
   sorted (map fst (sort_key fst (AList.clearjunk m))) \<and>
   set (sort_key fst (AList.clearjunk m)) = set (AList.clearjunk m) \<and>
   map_of (sort_key fst (AList.clearjunk m)) = map_of m"
proof -
  have d: "distinct (map fst (AList.clearjunk m))" by simp
  then have d': "distinct (map fst (sort_key fst (AList.clearjunk m)))"
    by (simp add: distinct_map)
  have "map_of (sort_key fst (AList.clearjunk m)) = map_of (AList.clearjunk m)"
    using d d' by (subst map_of_inject_set) simp_all
  then show ?thesis using d' by (simp add: map_of_clearjunk)
qed

lemma json_Marshal_map_Inr:
  assumes "json_Marshal_map enc m = Inr doc"
  shows "\<exists>out. doc = JObject out \<and> distinct (map fst out) \<and> sorted (map fst out) \<and>
     set (map fst out) = fst ` set m \<and>
     (\<forall>k. rel_option (\<lambda>a j. marshal_any enc a = Inr j) (map_of m k) (map_of out k))"
proof -
  from assms obtain out where doc: "doc = JObject out"
    and mm: "marshal_members enc (sort_key fst (AList.clearjunk m)) = Inr out"
    by (auto simp: json_Marshal_map_def split: sum.splits)
  have keys: "map fst out = map fst (sort_key fst (AList.clearjunk m))"
    and rel: "\<forall>k. rel_option (\<lambda>a j. marshal_any enc a = Inr j)
        (map_of (sort_key fst (AList.clearjunk m)) k) (map_of out k)"
    using marshal_members_map_of [OF mm] by auto
  have "set (map fst out) = fst ` set (sort_key fst (AList.clearjunk m))"
    unfolding keys by simp
  also have "\<dots> = fst ` set (AList.clearjunk m)"
    by (simp only: set_sort)
  also have "\<dots> = fst ` set m"
    by (rule dom_clearjunk)
  finally have kset: "set (map fst out) = fst ` set m" .
  have d: "distinct (map fst out)" and srt: "sorted (map fst out)"
    unfolding keys using sorted_entries [of m] by blast+
  have rel': "\<forall>k. rel_option (\<lambda>a j. marshal_any enc a = Inr j) (map_of m k) (map_of out k)"
    using rel sorted_entries [of m] by metis
  show ?thesis
    using doc d srt kset rel' by blast
qed

lemma json_Marshal_map_succeeds:
  assumes "\<forall>k a. map_of m k = Some a \<longrightarrow> (\<exists>j. marshal_any enc a = Inr j)"
  shows "\<exists>out. json_Marshal_map enc m = Inr (JObject out)"
proof -
  have "\<forall>(k, a) \<in> set (sort_key fst (AList.clearjunk m)). \<exists>j. marshal_any enc a = Inr j"
  proof (clarify)
    fix k a assume "(k, a) \<in> set (sort_key fst (AList.clearjunk m))"
    then have "map_of (sort_key fst (AList.clearjunk m)) k = Some a"
      using sorted_entries [of m] by (intro map_of_is_SomeI) auto
    then have "map_of m k = Some a" using sorted_entries [of m] by simp
    then show "\<exists>j. marshal_any enc a = Inr j" using assms by blast
  qed
  then obtain out where "marshal_members enc (sort_key fst (AList.clearjunk m)) = Inr out"
    using marshal_members_succeeds by blast
  then show ?thesis by (simp add: json_Marshal_map_def)
qed

lemma ToJSON_working_map:
  assumes "ensureStruct obj False = (rv, True)"
  shows "ToJSON enc r obj = json_Marshal_map enc (working_map r (Fields rv))"
  using assms by (simp add: ToJSON_def Let_def forJSONField_ToJSON working_map_def)

lemma clearjunk_eq_Nil: "AList.clearjunk m = [] \<longleftrightarrow> m = []"
  by (cases m) auto

lemma isZero_empty_value: "isZero v = empty_value v"
  by (cases v) (auto simp: isZero_def clearjunk_eq_Nil split: option.splits)

lemma struct_with_ensureStruct: "struct_with obj fs \<Longrightarrow> \<exists>rv. ensureStruct obj False = (rv, True) \<and> Fields rv = fs"
  by (auto simp: struct_with_def ensureStruct_def)

lemma distinct_emitted: "distinct (fieldNames fs) \<Longrightarrow> distinct (map fst (emitted fs))"
proof -
  have "map fst (emitted fs) =
      map (\<lambda>(t, v). name t) (filter (\<lambda>(t, v). \<not> (omitEmpty t \<and> isZero v)) (jsonFields fs))"
    by (simp add: emitted_def case_prod_unfold comp_def)
  then show "distinct (fieldNames fs) \<Longrightarrow> distinct (map fst (emitted fs))"
    by (simp add: fieldNames_def distinct_map_filter)
qed

lemma emitted_keys_subset: "fst ` set (emitted fs) \<subseteq> set (fieldNames fs)"
  by (auto simp: emitted_def fieldNames_def)

lemma map_of_emitted:
  assumes "distinct (fieldNames fs)" and "(t, v) \<in> set (jsonFields fs)"
  shows "map_of (rev (emitted fs)) (name t) = (if omitEmpty t \<and> isZero v then None else Some v)"
proof -
  have d: "distinct (map fst (emitted fs))" using assms(1) by (rule distinct_emitted)
  then have rv: "map_of (rev (emitted fs)) = map_of (emitted fs)" by (rule map_of_rev_distinct)
  show ?thesis
  proof (cases "omitEmpty t \<and> isZero v")
    case False
    then have "(name t, v) \<in> set (emitted fs)"
      using assms(2) by (force simp: emitted_def)
    then show ?thesis using d rv False by simp
  next
    case True
    have "name t \<notin> fst ` set (emitted fs)"
    proof
      assume "name t \<in> fst ` set (emitted fs)"
      then obtain t' v' where m: "(t', v') \<in> set (jsonFields fs)" and n: "name t' = name t"
        and k: "\<not> (omitEmpty t' \<and> isZero v')"
        by (auto simp: emitted_def)
      have "inj_on (\<lambda>(t, v). name t) (set (jsonFields fs))"
        using assms(1) by (simp add: fieldNames_def distinct_map)
      then have "(t', v') = (t, v)"
        using m assms(2) n inj_onD [of "\<lambda>(t, v). name t" "set (jsonFields fs)" "(t', v')" "(t, v)"]
        by simp
      then show False using True k by simp
    qed
    then show ?thesis using True rv by (simp add: map_of_eq_None_iff)
  qed
qed

text \<open>the output of ToJSON, key by key\<close>
lemma ToJSON_output:
  assumes "struct_with obj fs" and "ToJSON enc r obj = Inr doc"
  shows "\<exists>out. doc = JObject out \<and> distinct (map fst out) \<and> sorted (map fst out) \<and>
     set (map fst out) = fst ` set (emitted fs) \<union> dom (retained r) \<and>
     (\<forall>k v. map_of (rev (emitted fs)) k = Some v \<longrightarrow> (\<exists>j. enc v = Inr j \<and> map_of out k = Some j)) \<and>
     (\<forall>k. map_of (rev (emitted fs)) k = None \<longrightarrow> map_of out k = retained r k)"
proof -
  obtain rv where rv: "ensureStruct obj False = (rv, True)" and fs: "Fields rv = fs"
    using struct_with_ensureStruct [OF assms(1)] by blast
  have "json_Marshal_map enc (working_map r fs) = Inr doc"
    using assms(2) ToJSON_working_map [OF rv] fs by simp
  from json_Marshal_map_Inr [OF this] obtain out where doc: "doc = JObject out"
    and d: "distinct (map fst out)" and srt: "sorted (map fst out)"
    and keys: "set (map fst out) = fst ` set (working_map r fs)"
    and rel: "\<forall>k. rel_option (\<lambda>a j. marshal_any enc a = Inr j)
        (map_of (working_map r fs) k) (map_of out k)"
    by blast
  have a: "\<forall>k v. map_of (rev (emitted fs)) k = Some v \<longrightarrow> (\<exists>j. enc v = Inr j \<and> map_of out k = Some j)"
  proof (intro allI impI)
    fix k v assume "map_of (rev (emitted fs)) k = Some v"
    then have "map_of (working_map r fs) k = Some (Val v)"
      by (simp add: map_of_working_map)
    with rel have "rel_option (\<lambda>a j. marshal_any enc a = Inr j) (Some (Val v)) (map_of out k)"
      by metis
    then show "\<exists>j. enc v = Inr j \<and> map_of out k = Some j"
      by (cases "map_of out k") auto
  qed
  have b: "\<forall>k. map_of (rev (emitted fs)) k = None \<longrightarrow> map_of out k = retained r k"
  proof (intro allI impI)
    fix k assume "map_of (rev (emitted fs)) k = None"
    then have "map_of (working_map r fs) k = map_option Raw (retained r k)"
      by (simp add: map_of_working_map)
    with rel have "rel_option (\<lambda>a j. marshal_any enc a = Inr j)
        (map_option Raw (retained r k)) (map_of out k)"
      by metis
    then show "map_of out k = retained r k"
      by (cases "retained r k"; cases "map_of out k") auto
  qed
  have "fst ` set (working_map r fs) = fst ` set (emitted fs) \<union> dom (retained r)"
  proof -
    have "fst ` set (working_map r fs) = dom (map_of (working_map r fs))"
      by (simp add: dom_map_of_conv_image_fst)
    also have "\<dots> = dom (map_of (rev (emitted fs))) \<union> dom (retained r)"
      by (auto simp: map_of_working_map dom_def split: option.splits)
    also have "dom (map_of (rev (emitted fs))) = fst ` set (emitted fs)"
      by (simp add: dom_map_of_conv_image_fst)
    finally show ?thesis .
  qed
  with keys have "set (map fst out) = fst ` set (emitted fs) \<union> dom (retained r)" by simp
  with doc d srt a b show ?thesis by blast
qed

lemma fieldNames_jsonFields: "map (\<lambda>(t, v). name t) (jsonFields fs) = fieldNames fs"
  by (simp add: fieldNames_def)

lemma verifyNoDuplicateFieldNames_None:
  "verifyNoDuplicateFieldNames (VStruct n fs) = None \<longleftrightarrow> distinct (fieldNames fs)"
  using dup_scan_None [of "jsonFields fs" "[]"]
  by (simp add: verifyNoDuplicateFieldNames_def forJSONField_result fieldNames_jsonFields)

lemma verifyNoDuplicateFieldNames_Some:
  assumes "fieldNames fs = ps @ d # rest" and "distinct ps" and "d \<in> set ps"
  shows "verifyNoDuplicateFieldNames (VStruct n fs) =
     Some (fmt_Errorf ''duplicate JSON field %q'' [ArgQ d])"
  using dup_scan_Some [of "jsonFields fs" ps d rest "[]"] assms
  by (simp add: verifyNoDuplicateFieldNames_def forJSONField_result fieldNames_jsonFields)

lemma verifyNoUnsupportedTags_None:
  "verifyNoUnsupportedTags (VStruct n fs) = None \<longleftrightarrow>
     (\<forall>(t, v) \<in> set (jsonFields fs). tag_supported t)"
  using tags_scan_None [of "jsonFields fs" "()"]
  by (simp add: verifyNoUnsupportedTags_def forJSONField_result)

lemma verifyNoUnsupportedTags_Some:
  assumes "jsonFields fs = pre @ (t, v) # post" and "\<forall>(t', v') \<in> set pre. tag_supported t'"
    and "drop 1 (tag t) = oks @ bad # others" and "\<forall>m \<in> set oks. supported_modifier m"
    and "\<not> supported_modifier bad"
  shows "verifyNoUnsupportedTags (VStruct n fs) =
     Some (fmt_Errorf ''field %q has unsupported tag %q'' [ArgQ (name t), ArgQ bad])"
  using tags_scan_Some [OF assms, of "()"]
  by (simp add: verifyNoUnsupportedTags_def forJSONField_result)

lemma Retainable_struct_pointer:
  "Retainable (VPtrTo (VStruct n fs)) =
     (case verifyNoDuplicateFieldNames (VStruct n fs) of
        Some err \<Rightarrow>
          Some (fmt_Errorf ''%T not Retainable: %v''
                  [ArgT (TypeOf (VPtrTo (VStruct n fs))), ArgV err])
      | None \<Rightarrow>
          (case verifyNoUnsupportedTags (VStruct n fs) of
             Some err \<Rightarrow>
               Some (fmt_Errorf ''%T not Retainable: %v''
                       [ArgT (TypeOf (VPtrTo (VStruct n fs))), ArgV err])
           | None \<Rightarrow> None))"
  by (simp add: Retainable_def ensureStruct_def Let_def split: option.splits)

lemma Retainable_None_iff:
  "Retainable (VPtrTo (VStruct n fs)) = None \<longleftrightarrow>
     distinct (fieldNames fs) \<and> (\<forall>(t, v) \<in> set (jsonFields fs). tag_supported t)"
  using verifyNoDuplicateFieldNames_None [of n fs] verifyNoUnsupportedTags_None [of n fs]
  by (cases "verifyNoDuplicateFieldNames (VStruct n fs)";
      cases "verifyNoUnsupportedTags (VStruct n fs)")
     (simp_all add: Retainable_struct_pointer)

text \<open>
  Claim C6, as amended. For a pointer to a struct, \<^verbatim>\<open>Retainable\<close> returns an error if and
  only if two declared fields have the same canonical name or a declared field has a
  component after the name that is neither empty nor \<^verbatim>\<open>omitempty\<close>. The error is
  \<^verbatim>\<open>"%T not Retainable: %v"\<close> around the cause. For a duplicate the cause is
  \<^verbatim>\<open>"duplicate JSON field %q"\<close> with the first name that repeats an earlier one (checked
  before the tags). Without duplicates, the cause is the message of the specification,
  \<^verbatim>\<open>"field %q has unsupported tag %q"\<close>, with the canonical name of the first offending
  field and its first offending component.
\<close>

theorem retainable_validation:
  fixes n fs
  defines "obj \<equiv> VPtrTo (VStruct n fs)"
  shows
  "(Retainable obj = None \<longleftrightarrow>
      distinct (fieldNames fs) \<and> (\<forall>(t, v) \<in> set (jsonFields fs). tag_supported t)) \<and>
   (\<forall>ps d rest. fieldNames fs = ps @ d # rest \<and> distinct ps \<and> d \<in> set ps \<longrightarrow>
      Retainable obj =
        Some (fmt_Errorf ''%T not Retainable: %v''
                [ArgT (TypeOf obj), ArgV (fmt_Errorf ''duplicate JSON field %q'' [ArgQ d])])) \<and>
   (\<forall>pre t v post oks bad others.
      distinct (fieldNames fs) \<and> jsonFields fs = pre @ (t, v) # post \<and>
      (\<forall>(t', v') \<in> set pre. tag_supported t') \<and>
      drop 1 (tag t) = oks @ bad # others \<and> (\<forall>m \<in> set oks. supported_modifier m) \<and>
      \<not> supported_modifier bad \<longrightarrow>
      Retainable obj =
        Some (fmt_Errorf ''%T not Retainable: %v''
                [ArgT (TypeOf obj), ArgV (spec_unsupported_error (name t) bad)]))"
proof (intro conjI allI impI)
  show "Retainable obj = None \<longleftrightarrow>
      distinct (fieldNames fs) \<and> (\<forall>(t, v) \<in> set (jsonFields fs). tag_supported t)"
    unfolding obj_def by (rule Retainable_None_iff)
next
  fix ps d rest
  assume "fieldNames fs = ps @ d # rest \<and> distinct ps \<and> d \<in> set ps"
  then have "verifyNoDuplicateFieldNames (VStruct n fs) =
      Some (fmt_Errorf ''duplicate JSON field %q'' [ArgQ d])"
    using verifyNoDuplicateFieldNames_Some by blast
  then show "Retainable obj =
      Some (fmt_Errorf ''%T not Retainable: %v''
              [ArgT (TypeOf obj), ArgV (fmt_Errorf ''duplicate JSON field %q'' [ArgQ d])])"
    unfolding obj_def by (simp add: Retainable_struct_pointer)
next
  fix pre t v post oks bad others
  assume h: "distinct (fieldNames fs) \<and> jsonFields fs = pre @ (t, v) # post \<and>
      (\<forall>(t', v') \<in> set pre. tag_supported t') \<and>
      drop 1 (tag t) = oks @ bad # others \<and> (\<forall>m \<in> set oks. supported_modifier m) \<and>
      \<not> supported_modifier bad"
  then have "verifyNoDuplicateFieldNames (VStruct n fs) = None"
    by (simp add: verifyNoDuplicateFieldNames_None)
  moreover have "verifyNoUnsupportedTags (VStruct n fs) =
      Some (fmt_Errorf ''field %q has unsupported tag %q'' [ArgQ (name t), ArgQ bad])"
    using h verifyNoUnsupportedTags_Some [of fs pre t v post oks bad others n] by blast
  ultimately show "Retainable obj =
      Some (fmt_Errorf ''%T not Retainable: %v''
              [ArgT (TypeOf obj), ArgV (spec_unsupported_error (name t) bad)])"
    unfolding obj_def by (simp add: Retainable_struct_pointer spec_unsupported_error_def)
qed



text \<open>
  The message that claim C6 gives for a duplicate, \<^verbatim>\<open>"duplicate field name %q"\<close>, is not the
  one the package returns: on \<^verbatim>\<open>DuplicateNameTags\<close> of its tests the error is
  \<^verbatim>\<open>"duplicate JSON field %q"\<close> inside \<^verbatim>\<open>"%T not Retainable: %v"\<close>.
\<close>

theorem retainable_validation_counterexample:
  "Retainable (VPtrTo DuplicateNameTags) =
     Some (fmt_Errorf ''%T not Retainable: %v''
             [ArgT (TypeOf (VPtrTo DuplicateNameTags)),
              ArgV (fmt_Errorf ''duplicate JSON field %q'' [ArgQ ''name''])]) \<and>
   Retainable (VPtrTo DuplicateNameTags) \<noteq>
     Some (fmt_Errorf ''%T not Retainable: %v''
             [ArgT (TypeOf (VPtrTo DuplicateNameTags)), ArgV (spec_duplicate_error ''name'')]) \<and>
   Retainable (VPtrTo DuplicateNameTags) \<noteq> Some (spec_duplicate_error ''name'')"
  by code_simp


theorem retainable_validation_witness:
  "Retainable (VPtrTo (Page [] [])) = None \<and>
   Retainable (VPtrTo DuplicateNameTags) =
     Some (fmt_Errorf ''%T not Retainable: %v''
             [ArgT (TypeOf (VPtrTo DuplicateNameTags)),
              ArgV (fmt_Errorf ''duplicate JSON field %q'' [ArgQ ''name''])]) \<and>
   Retainable (VPtrTo UnsupportedStringTag) =
     Some (fmt_Errorf ''%T not Retainable: %v''
             [ArgT (TypeOf (VPtrTo UnsupportedStringTag)),
              ArgV (spec_unsupported_error ''Age'' ''string'')])"
proof -
  let ?t = "jsonTag_of (exported_field ''Age'' '',string'')"
  have p: "distinct (fieldNames (Fields (Page [] []))) \<and>
      (\<forall>(t, v) \<in> set (jsonFields (Fields (Page [] []))). tag_supported t)"
    by code_simp
  have d: "fieldNames (Fields DuplicateNameTags) = [''name''] @ ''name'' # [] \<and>
      distinct [''name''] \<and> ''name'' \<in> set [''name'']"
    by code_simp
  have u: "distinct (fieldNames (Fields UnsupportedStringTag)) \<and>
      jsonFields (Fields UnsupportedStringTag) = [] @ (?t, VInt 0) # [] \<and>
      (\<forall>(t', v') \<in> set []. tag_supported t') \<and>
      drop 1 (tag ?t) = [] @ ''string'' # [] \<and> (\<forall>m \<in> set []. supported_modifier m) \<and>
      \<not> supported_modifier ''string''"
    by code_simp
  have n: "name ?t = ''Age''"
    by code_simp
  have 1: "Retainable (VPtrTo (Page [] [])) = None"
    using p retainable_validation [of "''jsonobj_test.Page''" "Fields (Page [] [])"]
    by (simp add: Page_def)
  have "Retainable (VPtrTo (VStruct ''jsonobj.DuplicateNameTags'' (Fields DuplicateNameTags))) =
     Some (fmt_Errorf ''%T not Retainable: %v''
             [ArgT (TypeOf (VPtrTo (VStruct ''jsonobj.DuplicateNameTags'' (Fields DuplicateNameTags)))),
              ArgV (fmt_Errorf ''duplicate JSON field %q'' [ArgQ ''name''])])"
    using d retainable_validation [of "''jsonobj.DuplicateNameTags''" "Fields DuplicateNameTags"]
    by blast
  then have 2: "Retainable (VPtrTo DuplicateNameTags) =
     Some (fmt_Errorf ''%T not Retainable: %v''
             [ArgT (TypeOf (VPtrTo DuplicateNameTags)),
              ArgV (fmt_Errorf ''duplicate JSON field %q'' [ArgQ ''name''])])"
    by (simp add: DuplicateNameTags_def)
  have "Retainable (VPtrTo (VStruct ''jsonobj.UnsupportedStringTag'' (Fields UnsupportedStringTag))) =
     Some (fmt_Errorf ''%T not Retainable: %v''
             [ArgT (TypeOf (VPtrTo (VStruct ''jsonobj.UnsupportedStringTag'' (Fields UnsupportedStringTag)))),
              ArgV (spec_unsupported_error (name ?t) ''string'')])"
    using u retainable_validation [of "''jsonobj.UnsupportedStringTag''" "Fields UnsupportedStringTag"]
    by blast
  then have 3: "Retainable (VPtrTo UnsupportedStringTag) =
     Some (fmt_Errorf ''%T not Retainable: %v''
             [ArgT (TypeOf (VPtrTo UnsupportedStringTag)),
              ArgV (spec_unsupported_error ''Age'' ''string'')])"
    unfolding n by (simp add: UnsupportedStringTag_def)
  from 1 2 3 show ?thesis by blast
qed

section \<open>Shape of the argument\<close>


lemma ensureStruct_struct_pointer:
  "is_struct_pointer obj \<Longrightarrow> ensureStruct obj b = (Elem obj, True)"
  by (auto simp: is_struct_pointer_def is_struct_def ensureStruct_def split: goval.splits)

lemma ensureStruct_struct:
  "is_struct obj \<Longrightarrow> ensureStruct obj False = (obj, True)"
  by (auto simp: is_struct_def ensureStruct_def split: goval.splits)

lemma ensureStruct_not_pointer:
  "\<not> is_struct_pointer obj \<Longrightarrow> snd (ensureStruct obj True) = False"
  by (auto simp: is_struct_pointer_def is_struct_def ensureStruct_def split: goval.splits)

lemma ensureStruct_neither:
  "\<not> is_struct obj \<Longrightarrow> \<not> is_struct_pointer obj \<Longrightarrow> snd (ensureStruct obj False) = False"
  by (auto simp: is_struct_pointer_def is_struct_def ensureStruct_def split: goval.splits)

lemma json_Marshal_map_error: "json_Marshal_map enc m = Inl e \<Longrightarrow> \<exists>c. e = CodecError c"
  by (auto simp: json_Marshal_map_def split: sum.splits)

lemma ToJSON_error_struct:
  assumes "ensureStruct obj False = (rv, True)" and "ToJSON enc r obj = Inl e"
  shows "\<exists>c. e = CodecError c"
  using assms by (auto simp: ToJSON_def Let_def forJSONField_ToJSON dest: json_Marshal_map_error)

text \<open>
  Claim C7. \<^verbatim>\<open>FromJSON\<close> returns the error that names the type of its argument, and leaves
  the receiver and the argument as they were, for every argument that is not a (non-nil)
  pointer to a struct. \<^verbatim>\<open>ToJSON\<close> takes a struct and a pointer to a struct alike: there its
  only errors are those of the codec; for every other argument it returns the error that
  names the type of the argument.
\<close>

theorem shape_preconditions:
  "(\<not> is_struct_pointer obj \<longrightarrow>
      FromJSON dec r data obj =
        (Some (fmt_Errorf ''FromJSON requires a struct pointer, got %T'' [ArgT (TypeOf obj)]),
         r, obj)) \<and>
   (is_struct obj \<or> is_struct_pointer obj \<longrightarrow>
      (\<forall>e. ToJSON enc r obj = Inl e \<longrightarrow> (\<exists>c. e = CodecError c))) \<and>
   (is_struct obj \<longrightarrow> ToJSON enc r (VPtrTo obj) = ToJSON enc r obj) \<and>
   (\<not> is_struct obj \<and> \<not> is_struct_pointer obj \<longrightarrow>
      ToJSON enc r obj =
        Inl (fmt_Errorf ''ToJSON requires a struct, got %T'' [ArgT (TypeOf obj)]))"
proof (intro conjI impI)
  assume "\<not> is_struct_pointer obj"
  then show "FromJSON dec r data obj =
      (Some (fmt_Errorf ''FromJSON requires a struct pointer, got %T'' [ArgT (TypeOf obj)]),
       r, obj)"
    using ensureStruct_not_pointer [of obj]
    by (cases "ensureStruct obj True") (simp add: FromJSON_def)
next
  assume "is_struct obj \<or> is_struct_pointer obj"
  then obtain rv where "ensureStruct obj False = (rv, True)"
    using ensureStruct_struct ensureStruct_struct_pointer by blast
  then show "\<forall>e. ToJSON enc r obj = Inl e \<longrightarrow> (\<exists>c. e = CodecError c)"
    using ToJSON_error_struct by blast
next
  assume "is_struct obj"
  then show "ToJSON enc r (VPtrTo obj) = ToJSON enc r obj"
    by (auto simp: ToJSON_def ensureStruct_def is_struct_def split: goval.splits)
next
  assume "\<not> is_struct obj \<and> \<not> is_struct_pointer obj"
  then show "ToJSON enc r obj =
      Inl (fmt_Errorf ''ToJSON requires a struct, got %T'' [ArgT (TypeOf obj)])"
    using ensureStruct_neither [of obj]
    by (cases "ensureStruct obj False") (simp add: ToJSON_def)
qed

theorem shape_preconditions_witness:
  "\<not> is_struct_pointer (Page [] []) \<and>
   FromJSON json_Unmarshal_value \<lparr>raw = None\<rparr> (Valid (JObject [])) (Page [] []) =
     (Some (fmt_Errorf ''FromJSON requires a struct pointer, got %T'' [ArgT (TypeOf (Page [] []))]),
      \<lparr>raw = None\<rparr>, Page [] []) \<and>
   is_struct (Page [] []) \<and>
   ToJSON json_Marshal_value \<lparr>raw = None\<rparr> (VPtrTo (Page [] [])) =
     ToJSON json_Marshal_value \<lparr>raw = None\<rparr> (Page [] []) \<and>
   (\<forall>e. ToJSON json_Marshal_value \<lparr>raw = None\<rparr> (Page [] []) \<noteq> Inl (fmt_Errorf ''ToJSON requires a struct, got %T'' e)) \<and>
   \<not> is_struct (VPtrTo (VString ''str'')) \<and> \<not> is_struct_pointer (VPtrTo (VString ''str'')) \<and>
   ToJSON json_Marshal_value \<lparr>raw = None\<rparr> (VPtrTo (VString ''str'')) =
     Inl (fmt_Errorf ''ToJSON requires a struct, got %T'' [ArgT (TPtr TString)])"
proof -
  have a: "\<not> is_struct_pointer (Page [] [])"
    by (simp add: is_struct_pointer_def Page_def)
  have b: "is_struct (Page [] [])"
    by (simp add: is_struct_def Page_def)
  have c: "\<not> is_struct (VPtrTo (VString ''str'')) \<and> \<not> is_struct_pointer (VPtrTo (VString ''str''))"
    by (simp add: is_struct_def is_struct_pointer_def)
  from a b c
    shape_preconditions [of "Page [] []" json_Unmarshal_value "\<lparr>raw = None\<rparr>" "Valid (JObject [])"
      json_Marshal_value]
    shape_preconditions [of "VPtrTo (VString ''str'')" json_Unmarshal_value "\<lparr>raw = None\<rparr>"
      "Valid (JObject [])" json_Marshal_value]
  show ?thesis by auto
qed

section \<open>Encoding\<close>

text \<open>
  Claim C3. Let \<^verbatim>\<open>ToJSON\<close> succeed on a record. For every canonical name, the last declared
  field of that name that omit-when-empty does not suppress has the encoding of its
  current value in the output under that name, whatever the retained state holds there;
  so, when the canonical names are distinct (the invariant that \<^verbatim>\<open>Retainable\<close> checks),
  every declared field that is not suppressed has. Every key that no such field writes
  has its retained value. The keys of the output are the names of the fields that are
  not suppressed and the retained keys, each exactly once.
\<close>

theorem encode_overlay_precedence:
  assumes "struct_with obj fs" and "ToJSON enc r obj = Inr doc"
  shows "\<exists>out. doc = JObject out \<and>
     (\<forall>k v. map_of (rev (emitted fs)) k = Some v \<longrightarrow>
        (\<exists>j. enc v = Inr j \<and> map_of out k = Some j)) \<and>
     (distinct (fieldNames fs) \<longrightarrow>
        (\<forall>(t, v) \<in> set (jsonFields fs).
           \<not> (omitEmpty t \<and> isZero v) \<longrightarrow>
             (\<exists>j. enc v = Inr j \<and> map_of out (name t) = Some j))) \<and>
     (\<forall>k. k \<notin> fst ` set (emitted fs) \<longrightarrow> map_of out k = retained r k) \<and>
     distinct (map fst out) \<and>
     set (map fst out) = fst ` set (emitted fs) \<union> dom (retained r)"
proof -
  from ToJSON_output [OF assms] obtain out where w:
    "doc = JObject out \<and> distinct (map fst out) \<and> sorted (map fst out) \<and>
     set (map fst out) = fst ` set (emitted fs) \<union> dom (retained r) \<and>
     (\<forall>k v. map_of (rev (emitted fs)) k = Some v \<longrightarrow>
        (\<exists>j. enc v = Inr j \<and> map_of out k = Some j)) \<and>
     (\<forall>k. map_of (rev (emitted fs)) k = None \<longrightarrow> map_of out k = retained r k)"
    by (elim exE) (rule that)
  note doc = w [THEN conjunct1]
  note d = w [THEN conjunct2, THEN conjunct1]
  note keys = w [THEN conjunct2, THEN conjunct2, THEN conjunct2, THEN conjunct1]
  note a = w [THEN conjunct2, THEN conjunct2, THEN conjunct2, THEN conjunct2, THEN conjunct1]
  note b = w [THEN conjunct2, THEN conjunct2, THEN conjunct2, THEN conjunct2, THEN conjunct2]
  have 1: "distinct (fieldNames fs) \<longrightarrow>
      (\<forall>(t, v) \<in> set (jsonFields fs).
         \<not> (omitEmpty t \<and> isZero v) \<longrightarrow> (\<exists>j. enc v = Inr j \<and> map_of out (name t) = Some j))"
  proof (intro impI ballI, clarify)
    fix t v
    assume "distinct (fieldNames fs)" and "(t, v) \<in> set (jsonFields fs)"
      and "\<not> (omitEmpty t \<and> isZero v)"
    then have "map_of (rev (emitted fs)) (name t) = Some v"
      using map_of_emitted [of fs t v] by simp
    then show "\<exists>j. enc v = Inr j \<and> map_of out (name t) = Some j"
      using a by blast
  qed
  have 2: "\<forall>k. k \<notin> fst ` set (emitted fs) \<longrightarrow> map_of out k = retained r k"
  proof (intro allI impI)
    fix k assume "k \<notin> fst ` set (emitted fs)"
    then have "map_of (rev (emitted fs)) k = None"
      by (simp add: map_of_eq_None_iff)
    then show "map_of out k = retained r k" using b by blast
  qed
  show ?thesis
    by (rule exI [of _ out]) (intro conjI doc a 1 2 d keys)
qed

theorem encode_overlay_precedence_witness:
  "struct_with (Page ''Contact Us'' ''contact-us'') (Fields (Page ''Contact Us'' ''contact-us'')) \<and>
   distinct (fieldNames (Fields (Page ''Contact Us'' ''contact-us''))) \<and>
   ToJSON json_Marshal_value \<lparr>raw = Some [(''icon'', JString ''email''), (''slug'', JString ''old'')]\<rparr>
       (Page ''Contact Us'' ''contact-us'') =
     Inr (JObject [(''icon'', JString ''email''), (''slug'', JString ''contact-us''),
                   (''title'', JString ''Contact Us'')]) \<and>
   (\<exists>out. JObject [(''icon'', JString ''email''), (''slug'', JString ''contact-us''),
                   (''title'', JString ''Contact Us'')] = JObject out \<and>
      map_of out ''slug'' = Some (JString ''contact-us'') \<and>
      map_of out ''icon'' = Some (JString ''email'') \<and> distinct (map fst out))"
proof -
  let ?r = "\<lparr>raw = Some [(''icon'', JString ''email''), (''slug'', JString ''old'')]\<rparr>"
  let ?p = "Page ''Contact Us'' ''contact-us''"
  let ?doc = "JObject [(''icon'', JString ''email''), (''slug'', JString ''contact-us''),
                   (''title'', JString ''Contact Us'')]"
  have h1: "struct_with ?p (Fields ?p)"
    by (simp add: struct_with_def Page_def)
  have h2: "distinct (fieldNames (Fields ?p))"
    by code_simp
  have h3: "ToJSON json_Marshal_value ?r ?p = Inr ?doc"
    by code_simp
  from encode_overlay_precedence [OF h1 h3]
  obtain out where o: "?doc = JObject out" and d: "distinct (map fst out)" by blast
  then have "map_of out ''slug'' = Some (JString ''contact-us'') \<and>
      map_of out ''icon'' = Some (JString ''email'')"
    by auto
  with h1 h2 h3 o d show ?thesis by blast
qed

text \<open>
  Claim C4. Let \<^verbatim>\<open>ToJSON\<close> succeed on a record, and take any declared field of it. Unless
  the field has the flag \<^verbatim>\<open>omitempty\<close> and its value is empty (\<open>empty_value\<close>: the zero value
  of a scalar, length zero for a slice, a map or an array, so that an array of length one
  or more is never empty), its name is a key of the output: a non-empty value is always
  included, and so is a field without the flag. When the canonical names are distinct, the
  output has the encoding of the value of such a field under its name, and a field with
  the flag and an empty value writes nothing: its name has whatever the retained state
  has, and is absent when the retained state has nothing.
\<close>

theorem omit_when_empty_per_kind:
  assumes "struct_with obj fs" and "ToJSON enc r obj = Inr (JObject out)"
    and "(t, v) \<in> set (jsonFields fs)"
  shows "(\<not> (omitEmpty t \<and> empty_value v) \<longrightarrow> name t \<in> set (map fst out)) \<and>
     (distinct (fieldNames fs) \<longrightarrow>
        (omitEmpty t \<and> empty_value v \<longrightarrow> map_of out (name t) = retained r (name t)) \<and>
        (\<not> (omitEmpty t \<and> empty_value v) \<longrightarrow>
           (\<exists>j. enc v = Inr j \<and> map_of out (name t) = Some j)) \<and>
        (retained r (name t) = None \<longrightarrow>
           (name t \<in> set (map fst out) \<longleftrightarrow> \<not> (omitEmpty t \<and> empty_value v))))"
proof -
  from ToJSON_output [OF assms(1,2)] obtain out' where w:
    "JObject out = JObject out' \<and> distinct (map fst out') \<and> sorted (map fst out') \<and>
     set (map fst out') = fst ` set (emitted fs) \<union> dom (retained r) \<and>
     (\<forall>k v. map_of (rev (emitted fs)) k = Some v \<longrightarrow>
        (\<exists>j. enc v = Inr j \<and> map_of out' k = Some j)) \<and>
     (\<forall>k. map_of (rev (emitted fs)) k = None \<longrightarrow> map_of out' k = retained r k)"
    by (elim exE) (rule that)
  then have o: "out' = out" by simp
  note w' = w [unfolded o]
  note keys = w' [THEN conjunct2, THEN conjunct2, THEN conjunct2, THEN conjunct1]
  note a = w' [THEN conjunct2, THEN conjunct2, THEN conjunct2, THEN conjunct2, THEN conjunct1]
  note b = w' [THEN conjunct2, THEN conjunct2, THEN conjunct2, THEN conjunct2, THEN conjunct2]
  have 0: "\<not> (omitEmpty t \<and> empty_value v) \<longrightarrow> name t \<in> set (map fst out)"
  proof
    assume "\<not> (omitEmpty t \<and> empty_value v)"
    then have "(name t, v) \<in> set (emitted fs)"
      using assms(3) by (force simp: emitted_def isZero_empty_value)
    then have "name t \<in> fst ` set (emitted fs)" by force
    then show "name t \<in> set (map fst out)" using keys by simp
  qed
  have rest: "(omitEmpty t \<and> empty_value v \<longrightarrow> map_of out (name t) = retained r (name t)) \<and>
        (\<not> (omitEmpty t \<and> empty_value v) \<longrightarrow>
           (\<exists>j. enc v = Inr j \<and> map_of out (name t) = Some j)) \<and>
        (retained r (name t) = None \<longrightarrow>
           (name t \<in> set (map fst out) \<longleftrightarrow> \<not> (omitEmpty t \<and> empty_value v)))"
    if dist: "distinct (fieldNames fs)"
  proof -
    have m: "map_of (rev (emitted fs)) (name t) =
        (if omitEmpty t \<and> empty_value v then None else Some v)"
      using map_of_emitted [OF dist assms(3)] by (simp add: isZero_empty_value)
    have 1: "omitEmpty t \<and> empty_value v \<longrightarrow> map_of out (name t) = retained r (name t)"
      using m b by simp
    have 2: "\<not> (omitEmpty t \<and> empty_value v) \<longrightarrow>
        (\<exists>j. enc v = Inr j \<and> map_of out (name t) = Some j)"
      using m a by simp
    have 3: "retained r (name t) = None \<longrightarrow>
        (name t \<in> set (map fst out) \<longleftrightarrow> \<not> (omitEmpty t \<and> empty_value v))"
    proof
      assume n: "retained r (name t) = None"
      show "name t \<in> set (map fst out) \<longleftrightarrow> \<not> (omitEmpty t \<and> empty_value v)"
      proof (cases "omitEmpty t \<and> empty_value v")
        case True
        then have "map_of out (name t) = None" using 1 n by simp
        then show ?thesis using True by (simp add: map_of_eq_None_iff)
      next
        case False
        then show ?thesis using 0 by simp
      qed
    qed
    show ?thesis by (intro conjI 1 2 3)
  qed
  show ?thesis using 0 rest by blast
qed

theorem omit_when_empty_per_kind_witness:
  "ToJSON json_Marshal_value \<lparr>raw = None\<rparr>
       (KindsStruct (VString []) (VSlice TString (Some [])) (VMap TString (Some []))
          (VArray TInt [VInt 0])) =
     Inr (JObject [(''Arr'', JArray [JNumber ''0''])]) \<and>
   map_of [(''Arr'', JArray [JNumber ''0''])] ''Str'' = None \<and>
   map_of [(''Arr'', JArray [JNumber ''0''])] ''List'' = None \<and>
   map_of [(''Arr'', JArray [JNumber ''0''])] ''Map'' = None \<and>
   ''Arr'' \<in> set (map fst [(''Arr'', JArray [JNumber ''0''])])"
proof -
  let ?k = "KindsStruct (VString []) (VSlice TString (Some [])) (VMap TString (Some []))
          (VArray TInt [VInt 0])"
  let ?out = "[(''Arr'', JArray [JNumber ''0''])]"
  let ?r = "\<lparr>raw = None\<rparr>"
  let ?t = "\<lambda>n. jsonTag_of (exported_field n '',omitempty'')"
  have h1: "struct_with ?k (Fields ?k)"
    by (simp add: struct_with_def KindsStruct_def)
  have h2: "distinct (fieldNames (Fields ?k))"
    by code_simp
  have h3: "ToJSON json_Marshal_value ?r ?k = Inr (JObject ?out)"
    by code_simp
  have m1: "(?t ''Str'', VString []) \<in> set (jsonFields (Fields ?k))"
    by code_simp
  have m2: "(?t ''List'', VSlice TString (Some [])) \<in> set (jsonFields (Fields ?k))"
    by code_simp
  have m3: "(?t ''Map'', VMap TString (Some [])) \<in> set (jsonFields (Fields ?k))"
    by code_simp
  have m4: "(?t ''Arr'', VArray TInt [VInt 0]) \<in> set (jsonFields (Fields ?k))"
    by code_simp
  have n: "name (?t ''Str'') = ''Str''" "name (?t ''List'') = ''List''"
    "name (?t ''Map'') = ''Map''" "name (?t ''Arr'') = ''Arr''"
    "omitEmpty (?t ''Str'')" "omitEmpty (?t ''List'')" "omitEmpty (?t ''Map'')"
    "omitEmpty (?t ''Arr'')" "retained ?r = (\<lambda>k. None)"
    by (simp_all add: jsonTag_of_def exported_field_def Tag_Get_def name_def omitEmpty_def
        retained_def gomap_index_def fun_eq_iff)
  from omit_when_empty_per_kind [OF h1 h3 m1] omit_when_empty_per_kind [OF h1 h3 m2]
    omit_when_empty_per_kind [OF h1 h3 m3] omit_when_empty_per_kind [OF h1 h3 m4]
  show ?thesis
    using h2 h3 n by simp
qed

section \<open>Tags of more than two components\<close>

lemma jsonFields_member:
  "(ft, v) \<in> set fs \<Longrightarrow> visited ft \<Longrightarrow> (jsonTag_of ft, v) \<in> set (jsonFields fs)"
  by (force simp: jsonFields_def)

text \<open>
  Claim C10. Take a declared field whose tag has more than two components, in a record
  whose canonical names are distinct and whose other fields pass the check of the tags.
  \<^verbatim>\<open>Retainable\<close> accepts the type exactly when every component after the name is empty or
  \<^verbatim>\<open>omitempty\<close>. \<^verbatim>\<open>ToJSON\<close> reads the flag from the second component alone: when that is
  not \<^verbatim>\<open>omitempty\<close>, every successful \<^verbatim>\<open>ToJSON\<close> has the encoded value of the field under
  its name, zero or not.
\<close>

theorem three_component_tag:
  assumes "struct_with obj fs" and "(ft, v) \<in> set fs" and "visited ft"
    and "strings_Split (Tag_Get (Tag ft) ''json'') CHR '','' = c0 # c1 # c2 # rest"
    and "distinct (fieldNames fs)"
    and "\<forall>(t', v') \<in> set (jsonFields fs). t' \<noteq> jsonTag_of ft \<longrightarrow> tag_supported t'"
  shows "(Retainable (VPtrTo (VStruct n fs)) = None \<longleftrightarrow>
        (\<forall>m \<in> set (c1 # c2 # rest). supported_modifier m)) \<and>
     (omitEmpty (jsonTag_of ft) \<longleftrightarrow> c1 = ''omitempty'') \<and>
     (c1 \<noteq> ''omitempty'' \<longrightarrow>
        (\<forall>doc. ToJSON enc r obj = Inr doc \<longrightarrow>
           (\<exists>out j. doc = JObject out \<and> enc v = Inr j \<and>
              map_of out (name (jsonTag_of ft)) = Some j)))"
proof -
  have tg: "tag (jsonTag_of ft) = c0 # c1 # c2 # rest"
    using assms(4) by (simp add: jsonTag_of_def)
  have mem: "(jsonTag_of ft, v) \<in> set (jsonFields fs)"
    using assms(2,3) by (rule jsonFields_member)
  have sup: "tag_supported (jsonTag_of ft) \<longleftrightarrow> (\<forall>m \<in> set (c1 # c2 # rest). supported_modifier m)"
    by (simp add: tag_supported_def tg)
  have "(\<forall>(t', v') \<in> set (jsonFields fs). tag_supported t') \<longleftrightarrow> tag_supported (jsonTag_of ft)"
    using assms(6) mem by fastforce
  then have 1: "Retainable (VPtrTo (VStruct n fs)) = None \<longleftrightarrow>
      (\<forall>m \<in> set (c1 # c2 # rest). supported_modifier m)"
    using assms(5) sup by (simp add: Retainable_None_iff)
  have 2: "omitEmpty (jsonTag_of ft) \<longleftrightarrow> c1 = ''omitempty''"
    by (simp add: omitEmpty_def tg)
  have 3: "c1 \<noteq> ''omitempty'' \<longrightarrow>
      (\<forall>doc. ToJSON enc r obj = Inr doc \<longrightarrow>
         (\<exists>out j. doc = JObject out \<and> enc v = Inr j \<and>
            map_of out (name (jsonTag_of ft)) = Some j))"
  proof (intro impI allI)
    fix doc assume c: "c1 \<noteq> ''omitempty''" and d: "ToJSON enc r obj = Inr doc"
    have "map_of (rev (emitted fs)) (name (jsonTag_of ft)) = Some v"
      using map_of_emitted [OF assms(5) mem] c 2 by simp
    then show "\<exists>out j. doc = JObject out \<and> enc v = Inr j \<and>
        map_of out (name (jsonTag_of ft)) = Some j"
      using ToJSON_output [OF assms(1) d] by blast
  qed
  show ?thesis using 1 2 3 by blast
qed

theorem three_component_tag_witness:
  "strings_Split ''name,,omitempty'' CHR '','' = [''name'', [], ''omitempty''] \<and>
   Retainable (VPtrTo (ThreeStruct [])) = None \<and>
   \<not> omitEmpty (jsonTag_of (exported_field ''Name'' ''name,,omitempty'')) \<and>
   ToJSON json_Marshal_value \<lparr>raw = None\<rparr> (ThreeStruct []) =
     Inr (JObject [(''name'', JString [])]) \<and>
   (\<exists>out j. JObject [(''name'', JString [])] = JObject out \<and>
      json_Marshal_value (VString []) = Inr j \<and> map_of out ''name'' = Some j)"
proof -
  let ?ft = "exported_field ''Name'' ''name,,omitempty''"
  let ?fs = "[(?ft, VString [])]"
  have h1: "struct_with (ThreeStruct []) ?fs"
    by (simp add: struct_with_def ThreeStruct_def)
  have h2: "(?ft, VString []) \<in> set ?fs" by simp
  have h3: "visited ?ft" by code_simp
  have h4: "strings_Split (Tag_Get (Tag ?ft) ''json'') CHR '','' = ''name'' # [] # ''omitempty'' # []"
    by code_simp
  have h5: "distinct (fieldNames ?fs)" by code_simp
  have h6: "\<forall>(t', v') \<in> set (jsonFields ?fs). t' \<noteq> jsonTag_of ?ft \<longrightarrow> tag_supported t'"
    by code_simp
  have s: "strings_Split ''name,,omitempty'' CHR '','' = [''name'', [], ''omitempty'']"
    by code_simp
  have t: "ToJSON json_Marshal_value \<lparr>raw = None\<rparr> (ThreeStruct []) =
      Inr (JObject [(''name'', JString [])])"
    by code_simp
  have nm: "name (jsonTag_of ?ft) = ''name''" by code_simp
  have sm: "\<forall>m \<in> set ([] # ''omitempty'' # []). supported_modifier m"
    by (simp add: supported_modifier_def)
  note th = three_component_tag [OF h1 h2 h3 h4 h5 h6, of "''struct''" json_Marshal_value
      "\<lparr>raw = None\<rparr>"]
  have a: "Retainable (VPtrTo (ThreeStruct [])) = None"
    using th sm by (simp add: ThreeStruct_def)
  have b: "\<not> omitEmpty (jsonTag_of ?ft)"
    using th by simp
  have c: "\<exists>out j. JObject [(''name'', JString [])] = JObject out \<and>
      json_Marshal_value (VString []) = Inr j \<and> map_of out ''name'' = Some j"
    using th t nm by simp
  show ?thesis using s a b t c by blast
qed

section \<open>The tag that is a dash\<close>

lemma strings_Split_dash:
  "strings_Split (''-,'' @ m) CHR '','' = ''-'' # strings_Split m CHR '',''"
  by (simp add: strings_Split_not_Nil split: list.splits)

lemma FromJSON_struct_pointer:
  "FromJSON dec r data (VPtrTo (VStruct n fs)) =
     (case json_Unmarshal_map data (raw r) of
        Inl e \<Rightarrow> (Some (CodecError e), r, VPtrTo (VStruct n fs))
      | Inr m \<Rightarrow>
          (case forJSONField (FromJSON_field dec) None fs m of
             (err, fs', m') \<Rightarrow>
               if err \<noteq> None then (err, r\<lparr>raw := m'\<rparr>, VPtrTo (VStruct n fs'))
               else (None, r\<lparr>raw := (if gomap_len m' = 0 then None else m')\<rparr>,
                     VPtrTo (VStruct n fs'))))"
  by (simp add: FromJSON_def ensureStruct_def split: sum.splits prod.splits)

lemma FromJSON_insert_skip:
  assumes "\<not> visited ft"
  shows "FromJSON dec r data (VPtrTo (VStruct n (pre @ (ft, v) # post))) =
     (case FromJSON dec r data (VPtrTo (VStruct n (pre @ post))) of
        (e, r', obj') \<Rightarrow>
          (e, r', VPtrTo (VStruct n (take (length pre) (Fields (Elem obj')) @ (ft, v) #
                                      drop (length pre) (Fields (Elem obj'))))))"
proof (cases "json_Unmarshal_map data (raw r)")
  case (Inl e)
  then show ?thesis by (simp add: FromJSON_struct_pointer)
next
  case (Inr m)
  obtain err fs' m' where f: "forJSONField (FromJSON_field dec) None (pre @ post) m = (err, fs', m')"
    by (cases "forJSONField (FromJSON_field dec) None (pre @ post) m")
  show ?thesis
    using Inr f by (simp add: FromJSON_struct_pointer forJSONField_insert_skip [OF assms])
qed

lemma ToJSON_insert_skip:
  "\<not> visited ft \<Longrightarrow>
   ToJSON enc r (VStruct n (pre @ (ft, v) # post)) = ToJSON enc r (VStruct n (pre @ post))"
  by (simp add: ToJSON_def ensureStruct_def Let_def forJSONField_ToJSON jsonFields_insert_skip)

text \<open>
  Claim C5. A field whose tag is the bare \<^verbatim>\<open>-\<close> is left out everywhere: \<^verbatim>\<open>FromJSON\<close> gives
  the error, the retained state and the other fields that it gives on the record without
  that field, and leaves the field as it was; \<^verbatim>\<open>ToJSON\<close> and the two checks of
  \<^verbatim>\<open>Retainable\<close> give what they give without the field. An exported field whose tag is
  \<^verbatim>\<open>-\<close>, a comma and any modifier is a declared field with the canonical name \<^verbatim>\<open>-\<close>:
  it is one of the descriptors, \<^verbatim>\<open>FromJSON\<close> decodes the member \<^verbatim>\<open>-\<close> into it, and
  \<^verbatim>\<open>ToJSON\<close> writes it under \<^verbatim>\<open>-\<close> unless the modifier is \<^verbatim>\<open>omitempty\<close> and it is empty.
\<close>

theorem dash_tag_semantics:
  "(Tag_Get (Tag ft) ''json'' = ''-'' \<longrightarrow>
      FromJSON dec r data (VPtrTo (VStruct n (pre @ (ft, v) # post))) =
        (case FromJSON dec r data (VPtrTo (VStruct n (pre @ post))) of
           (e, r', obj') \<Rightarrow>
             (e, r', VPtrTo (VStruct n (take (length pre) (Fields (Elem obj')) @ (ft, v) #
                                         drop (length pre) (Fields (Elem obj')))))) \<and>
      ToJSON enc r (VStruct n (pre @ (ft, v) # post)) = ToJSON enc r (VStruct n (pre @ post)) \<and>
      verifyNoDuplicateFieldNames (VStruct n (pre @ (ft, v) # post)) =
        verifyNoDuplicateFieldNames (VStruct n (pre @ post)) \<and>
      verifyNoUnsupportedTags (VStruct n (pre @ (ft, v) # post)) =
        verifyNoUnsupportedTags (VStruct n (pre @ post))) \<and>
   (IsExported ft \<and> Tag_Get (Tag ft) ''json'' = ''-,'' @ m \<longrightarrow>
      name (jsonTag_of ft) = ''-'' \<and>
      (omitEmpty (jsonTag_of ft) \<longleftrightarrow> hd (strings_Split m CHR '','') = ''omitempty'') \<and>
      jsonFields (pre @ (ft, v) # post) = jsonFields pre @ (jsonTag_of ft, v) # jsonFields post \<and>
      FromJSON dec \<lparr>raw = None\<rparr> (Valid (JObject [(''-'', j)])) (VPtrTo (VStruct n [(ft, v)])) =
        (map_option CodecError (snd (dec j v)),
         \<lparr>raw = (if snd (dec j v) = None then None else Some [])\<rparr>,
         VPtrTo (VStruct n [(ft, fst (dec j v))])) \<and>
      ToJSON enc \<lparr>raw = None\<rparr> (VStruct n [(ft, v)]) =
        (if omitEmpty (jsonTag_of ft) \<and> isZero v then Inr (JObject [])
         else (case enc v of
                 Inl e \<Rightarrow> Inl (CodecError e)
               | Inr j' \<Rightarrow> Inr (JObject [(''-'', j')]))))"
proof (intro conjI impI)
  assume "Tag_Get (Tag ft) ''json'' = ''-''"
  then have nv: "\<not> visited ft" by (simp add: visited_def)
  show "FromJSON dec r data (VPtrTo (VStruct n (pre @ (ft, v) # post))) =
        (case FromJSON dec r data (VPtrTo (VStruct n (pre @ post))) of
           (e, r', obj') \<Rightarrow>
             (e, r', VPtrTo (VStruct n (take (length pre) (Fields (Elem obj')) @ (ft, v) #
                                         drop (length pre) (Fields (Elem obj'))))))"
    using nv by (rule FromJSON_insert_skip)
  show "ToJSON enc r (VStruct n (pre @ (ft, v) # post)) = ToJSON enc r (VStruct n (pre @ post))"
    using nv by (rule ToJSON_insert_skip)
  show "verifyNoDuplicateFieldNames (VStruct n (pre @ (ft, v) # post)) =
        verifyNoDuplicateFieldNames (VStruct n (pre @ post))"
    using nv by (simp add: verifyNoDuplicateFieldNames_def forJSONField_result jsonFields_insert_skip)
  show "verifyNoUnsupportedTags (VStruct n (pre @ (ft, v) # post)) =
        verifyNoUnsupportedTags (VStruct n (pre @ post))"
    using nv by (simp add: verifyNoUnsupportedTags_def forJSONField_result jsonFields_insert_skip)
next
  assume h: "IsExported ft \<and> Tag_Get (Tag ft) ''json'' = ''-,'' @ m"
  then have vis: "visited ft" by (simp add: visited_def)
  have tg: "tag (jsonTag_of ft) = ''-'' # strings_Split m CHR '',''"
    using h strings_Split_dash [of m] by (simp add: jsonTag_of_def)
  show nm: "name (jsonTag_of ft) = ''-''"
    by (simp add: name_def tg)
  show oe: "omitEmpty (jsonTag_of ft) \<longleftrightarrow> hd (strings_Split m CHR '','') = ''omitempty''"
    using strings_Split_not_Nil [of m "CHR '',''"]
    by (cases "strings_Split m CHR '',''") (simp_all add: omitEmpty_def tg)
  show "jsonFields (pre @ (ft, v) # post) = jsonFields pre @ (jsonTag_of ft, v) # jsonFields post"
    using vis by (simp add: jsonFields_append jsonFields_Cons)
  obtain v' err where d: "dec j v = (v', err)" by (cases "dec j v")
  have "FromJSON_field dec (jsonTag_of ft) v (Some [(''-'', j)]) =
      (map_option CodecError err, v', Some [])"
    using d by (simp add: FromJSON_field_def nm gomap_index_def gomap_delete_def)
  then show "FromJSON dec \<lparr>raw = None\<rparr> (Valid (JObject [(''-'', j)])) (VPtrTo (VStruct n [(ft, v)])) =
        (map_option CodecError (snd (dec j v)),
         \<lparr>raw = (if snd (dec j v) = None then None else Some [])\<rparr>,
         VPtrTo (VStruct n [(ft, fst (dec j v))]))"
    using vis d by (simp add: FromJSON_struct_pointer forJSONField_visit gomap_len_def)
  have "ToJSON enc \<lparr>raw = None\<rparr> (VStruct n [(ft, v)]) =
      json_Marshal_map enc (overlay [] (jsonTag_of ft, v))"
    using vis
    by (simp add: ToJSON_def ensureStruct_def Let_def forJSONField_ToJSON jsonFields_Cons
        gomap_range_def)
  then show "ToJSON enc \<lparr>raw = None\<rparr> (VStruct n [(ft, v)]) =
        (if omitEmpty (jsonTag_of ft) \<and> isZero v then Inr (JObject [])
         else (case enc v of
                 Inl e \<Rightarrow> Inl (CodecError e)
               | Inr j' \<Rightarrow> Inr (JObject [(''-'', j')])))"
    by (simp add: overlay_def nm json_Marshal_map_def split: sum.splits)
qed


theorem dash_tag_semantics_witness:
  "Tag_Get (Tag (exported_field ''IgnoreField'' ''-'')) ''json'' = ''-'' \<and>
   ToJSON json_Marshal_value \<lparr>raw = None\<rparr> (IgnoreStruct ''str'') = Inr (JObject []) \<and>
   FromJSON json_Unmarshal_value \<lparr>raw = None\<rparr>
       (Valid (JObject [(''IgnoreField'', JString ''x'')])) (VPtrTo (IgnoreStruct ''str'')) =
     (None, \<lparr>raw = Some [(''IgnoreField'', JString ''x'')]\<rparr>, VPtrTo (IgnoreStruct ''str'')) \<and>
   verifyNoDuplicateFieldNames (IgnoreStruct ''str'') = None \<and>
   IsExported (exported_field ''DashName'' ''-,omitempty'') \<and>
   Tag_Get (Tag (exported_field ''DashName'' ''-,omitempty'')) ''json'' = ''-,'' @ ''omitempty'' \<and>
   name (jsonTag_of (exported_field ''DashName'' ''-,omitempty'')) = ''-'' \<and>
   ToJSON json_Marshal_value \<lparr>raw = None\<rparr> (DashStruct ''-,omitempty'' ''str'') =
     Inr (JObject [(''-'', JString ''str'')]) \<and>
   ToJSON json_Marshal_value \<lparr>raw = None\<rparr> (DashStruct ''-,omitempty'' []) = Inr (JObject []) \<and>
   FromJSON json_Unmarshal_value \<lparr>raw = None\<rparr> (Valid (JObject [(''-'', JString ''v'')]))
       (VPtrTo (DashStruct ''-,omitempty'' [])) =
     (None, \<lparr>raw = None\<rparr>, VPtrTo (DashStruct ''-,omitempty'' ''v''))"
proof -
  let ?i = "exported_field ''IgnoreField'' ''-''"
  let ?d = "exported_field ''DashName'' ''-,omitempty''"
  let ?data = "Valid (JObject [(''IgnoreField'', JString ''x'')])"
  have i: "Tag_Get (Tag ?i) ''json'' = ''-''"
    by code_simp
  have d: "IsExported ?d \<and> Tag_Get (Tag ?d) ''json'' = ''-,'' @ ''omitempty''"
    by code_simp
  have e1: "ToJSON json_Marshal_value \<lparr>raw = None\<rparr> (VStruct ''struct'' ([] @ [])) = Inr (JObject [])"
    by code_simp
  have e2: "FromJSON json_Unmarshal_value \<lparr>raw = None\<rparr> ?data (VPtrTo (VStruct ''struct'' ([] @ []))) =
      (None, \<lparr>raw = Some [(''IgnoreField'', JString ''x'')]\<rparr>, VPtrTo (VStruct ''struct'' []))"
    by code_simp
  have e3: "verifyNoDuplicateFieldNames (VStruct ''struct'' ([] @ [])) = None"
    by code_simp
  have e4: "hd (strings_Split ''omitempty'' CHR '','') = ''omitempty''"
    "isZero (VString [])" "\<not> isZero (VString ''str'')"
    "json_Unmarshal_value (JString ''v'') (VString []) = (VString ''v'', None)"
    by code_simp+
  note ti = dash_tag_semantics [where ft = ?i and pre = "[]" and post = "[]" and n = "''struct''"
      and v = "VString ''str''" and enc = json_Marshal_value and dec = json_Unmarshal_value
      and r = "\<lparr>raw = None\<rparr>" and data = ?data, THEN conjunct1, rule_format, OF i]
  note t1 = dash_tag_semantics [where ft = ?d and n = "''struct''" and m = "''omitempty''"
      and v = "VString ''str''" and enc = json_Marshal_value, THEN conjunct2, rule_format, OF d]
  note t2 = dash_tag_semantics [where ft = ?d and n = "''struct''" and m = "''omitempty''"
      and v = "VString []" and enc = json_Marshal_value and dec = json_Unmarshal_value
      and j = "JString ''v''", THEN conjunct2, rule_format, OF d]
  have 1: "ToJSON json_Marshal_value \<lparr>raw = None\<rparr> (IgnoreStruct ''str'') = Inr (JObject [])"
    using ti e1 by (simp add: IgnoreStruct_def)
  have 2: "FromJSON json_Unmarshal_value \<lparr>raw = None\<rparr> ?data (VPtrTo (IgnoreStruct ''str'')) =
      (None, \<lparr>raw = Some [(''IgnoreField'', JString ''x'')]\<rparr>, VPtrTo (IgnoreStruct ''str''))"
    using ti e2 by (simp add: IgnoreStruct_def)
  have 3: "verifyNoDuplicateFieldNames (IgnoreStruct ''str'') = None"
    using ti e3 by (simp add: IgnoreStruct_def)
  have 4: "name (jsonTag_of ?d) = ''-''"
    using t1 by blast
  have 5: "ToJSON json_Marshal_value \<lparr>raw = None\<rparr> (DashStruct ''-,omitempty'' ''str'') =
      Inr (JObject [(''-'', JString ''str'')])"
    using t1 e4 by (simp add: DashStruct_def)
  have 6: "ToJSON json_Marshal_value \<lparr>raw = None\<rparr> (DashStruct ''-,omitempty'' []) = Inr (JObject [])"
    using t2 e4 by (simp add: DashStruct_def)
  have 7: "FromJSON json_Unmarshal_value \<lparr>raw = None\<rparr> (Valid (JObject [(''-'', JString ''v'')]))
       (VPtrTo (DashStruct ''-,omitempty'' [])) =
     (None, \<lparr>raw = None\<rparr>, VPtrTo (DashStruct ''-,omitempty'' ''v''))"
    using t2 e4 by (simp add: DashStruct_def)
  show ?thesis using i d 1 2 3 4 5 6 7 by blast
qed

section \<open>Decoding: the retained state\<close>

lemma gomap_index_delete:
  "gomap_index (gomap_delete k m) k' = (if k' = k then None else gomap_index m k')"
  by (cases m) (simp_all add: gomap_index_def gomap_delete_def delete_conv')

lemma gomap_delete_None: "gomap_delete k m = None \<longleftrightarrow> m = None"
  by (simp add: gomap_delete_def)

lemma gomap_len_0: "gomap_len m = 0 \<longleftrightarrow> (\<forall>k. gomap_index m k = None)"
proof (cases m)
  case None
  then show ?thesis by (simp add: gomap_len_def gomap_index_def)
next
  case (Some kvs)
  have "(\<forall>k. map_of kvs k = None) \<longleftrightarrow> kvs = []"
    using map_of_eq_empty_iff [of kvs] by (auto simp: fun_eq_iff)
  then show ?thesis
    using Some by (simp add: gomap_len_def gomap_index_def clearjunk_eq_Nil)
qed

lemma FromJSON_field_absent:
  "gomap_index m (name t) = None \<Longrightarrow> FromJSON_field dec t v m = (None, v, m)"
  by (simp add: FromJSON_field_def)

lemma FromJSON_field_present:
  "gomap_index m (name t) = Some j \<Longrightarrow>
   FromJSON_field dec t v m =
     (map_option CodecError (snd (dec j v)), fst (dec j v), gomap_delete (name t) m)"
  by (simp add: FromJSON_field_def split: prod.splits)

lemma FromJSON_scan_raw:
  assumes "forDescriptors (FromJSON_field dec) None tvs m = (None, m')"
  shows "(\<forall>k. gomap_index m' k =
            (if k \<in> set (map (\<lambda>(t, v). name t) tvs) then None else gomap_index m k)) \<and>
         (m' = None \<longleftrightarrow> m = None)"
  using assms
proof (induction tvs arbitrary: m)
  case Nil
  then show ?case by simp
next
  case (Cons p tvs)
  obtain t v where p: "p = (t, v)" by (cases p)
  show ?case
  proof (cases "gomap_index m (name t)")
    case None
    have "forDescriptors (FromJSON_field dec) None tvs m = (None, m')"
      using Cons.prems FromJSON_field_absent [OF None, of dec v] unfolding p by simp
    from Cons.IH [OF this] show ?thesis
      unfolding p using None by auto
  next
    case (Some j)
    note f = FromJSON_field_present [OF Some, of dec v]
    have e: "snd (dec j v) = None"
      using Cons.prems f unfolding p by (cases "snd (dec j v)") auto
    have "forDescriptors (FromJSON_field dec) None tvs (gomap_delete (name t) m) = (None, m')"
      using Cons.prems f e unfolding p by simp
    from Cons.IH [OF this] show ?thesis
      unfolding p by (auto simp: gomap_index_delete gomap_delete_None)
  qed
qed

lemma json_Unmarshal_map_Inr:
  assumes "json_Unmarshal_map data m = Inr m0"
  shows "\<exists>D. data = Valid D \<and> (D = JNull \<or> (\<exists>kvs. D = JObject kvs)) \<and>
     (\<forall>k. gomap_index m0 k =
        (case members D k of Some j \<Rightarrow> Some j
         | None \<Rightarrow> if D = JNull then None else gomap_index m k))"
proof (cases data)
  case Malformed
  with assms show ?thesis by simp
next
  case (Valid D)
  show ?thesis
  proof (cases D)
    case JNull
    with assms Valid show ?thesis by (auto simp: gomap_index_def)
  next
    case (JObject kvs)
    have "map_of (foldl (\<lambda>acc (k, v). AList.update k v acc)
             (case m of None \<Rightarrow> [] | Some old \<Rightarrow> old) kvs) k =
        (case map_of (rev kvs) k of Some j \<Rightarrow> Some j
         | None \<Rightarrow> map_of (case m of None \<Rightarrow> [] | Some old \<Rightarrow> old) k)" for k
      using map_of_foldl_update [where f = "\<lambda>v. v"] by fast
    with assms Valid JObject show ?thesis
      by (auto simp: gomap_index_def split: option.splits)
  qed (use assms Valid in auto)
qed

lemma is_struct_pointer_cases:
  "is_struct_pointer obj \<Longrightarrow> \<exists>n fs. obj = VPtrTo (VStruct n fs)"
  by (auto simp: is_struct_pointer_def is_struct_def split: goval.splits)

lemma FromJSON_success:
  assumes "FromJSON dec r data obj = (None, r', obj')"
  shows "\<exists>n fs D. obj = VPtrTo (VStruct n fs) \<and> data = Valid D \<and>
     (D = JNull \<or> (\<exists>kvs. D = JObject kvs)) \<and>
     (\<forall>k. retained r' k =
        (if k \<in> set (fieldNames fs) then None
         else (case members D k of Some j \<Rightarrow> Some j
               | None \<Rightarrow> if D = JNull then None else retained r k))) \<and>
     (raw r' = None \<longleftrightarrow> (\<forall>k. retained r' k = None))"
proof -
  have "is_struct_pointer obj"
  proof (rule ccontr)
    assume "\<not> is_struct_pointer obj"
    then have "snd (ensureStruct obj True) = False" by (rule ensureStruct_not_pointer)
    then show False using assms by (cases "ensureStruct obj True") (simp add: FromJSON_def)
  qed
  then obtain n fs where obj: "obj = VPtrTo (VStruct n fs)"
    using is_struct_pointer_cases by blast
  obtain m0 where m0: "json_Unmarshal_map data (raw r) = Inr m0"
    using assms unfolding obj FromJSON_struct_pointer
    by (cases "json_Unmarshal_map data (raw r)") auto
  obtain err fs' m' where f: "forJSONField (FromJSON_field dec) None fs m0 = (err, fs', m')"
    by (cases "forJSONField (FromJSON_field dec) None fs m0")
  have err: "err = None" and r': "r' = r\<lparr>raw := (if gomap_len m' = 0 then None else m')\<rparr>"
    using assms m0 f unfolding obj FromJSON_struct_pointer by (auto split: if_splits)
  have "forDescriptors (FromJSON_field dec) None (jsonFields fs) m0 = (None, m')"
    using forJSONField_forDescriptors [of "FromJSON_field dec" None fs m0] f err by simp
  from FromJSON_scan_raw [OF this]
  have idx: "\<forall>k. gomap_index m' k = (if k \<in> set (fieldNames fs) then None else gomap_index m0 k)"
    by (simp add: fieldNames_def)
  have ret: "retained r' = gomap_index m'"
    using gomap_len_0 [of m'] unfolding r'
    by (auto simp: retained_def fun_eq_iff gomap_index_def)
  have nil: "raw r' = None \<longleftrightarrow> (\<forall>k. retained r' k = None)"
    unfolding ret using gomap_len_0 [of m'] unfolding r' by (auto simp: gomap_index_def)
  from json_Unmarshal_map_Inr [OF m0] obtain D where D: "data = Valid D"
    and sh: "D = JNull \<or> (\<exists>kvs. D = JObject kvs)"
    and i0: "\<forall>k. gomap_index m0 k =
        (case members D k of Some j \<Rightarrow> Some j
         | None \<Rightarrow> if D = JNull then None else gomap_index (raw r) k)"
    by blast
  have "retained r' k =
        (if k \<in> set (fieldNames fs) then None
         else (case members D k of Some j \<Rightarrow> Some j
               | None \<Rightarrow> if D = JNull then None else retained r k))" for k
  proof -
    have 1: "retained r' k = gomap_index m' k" by (simp add: ret)
    have 2: "gomap_index m' k = (if k \<in> set (fieldNames fs) then None else gomap_index m0 k)"
      using idx by blast
    have 3: "gomap_index m0 k =
        (case members D k of Some j \<Rightarrow> Some j
         | None \<Rightarrow> if D = JNull then None else gomap_index (raw r) k)"
      using i0 by blast
    have 4: "gomap_index (raw r) k = retained r k" by (simp add: retained_def)
    show ?thesis unfolding 1 2 3 4 by (rule refl)
  qed
  then have all: "\<forall>k. retained r' k =
        (if k \<in> set (fieldNames fs) then None
         else (case members D k of Some j \<Rightarrow> Some j
               | None \<Rightarrow> if D = JNull then None else retained r k))"
    by (rule allI)
  show ?thesis
    by (rule exI [of _ n], rule exI [of _ fs], rule exI [of _ D]) (intro conjI obj D sh all nil)
qed

text \<open>
  Claim C2, as amended. After a successful \<^verbatim>\<open>FromJSON\<close> the data is the text of a value \<open>D\<close>,
  and the retained state holds, for every key that no declared field claims, the entry of
  \<open>D\<close> if \<open>D\<close> has the key, and otherwise the entry that the receiver held before the call
  (unless \<open>D\<close> is null, which clears the state): the earlier state is merged in, not
  replaced. The state is nil exactly when it has no entry. When the receiver held no
  entry before the call, the retained state is exactly the unknown entries of \<open>D\<close>.
\<close>

theorem FromJSON_retained_state:
  assumes "FromJSON dec r data obj = (None, r', obj')"
  shows "\<exists>D. data = Valid D \<and>
     (\<forall>k. retained r' k =
        (if k \<in> set (fieldNames (Fields (Elem obj))) then None
         else (case members D k of Some j \<Rightarrow> Some j
               | None \<Rightarrow> if D = JNull then None else retained r k))) \<and>
     (raw r' = None \<longleftrightarrow> (\<forall>k. retained r' k = None)) \<and>
     ((\<forall>k. retained r k = None) \<longrightarrow>
        (\<forall>k. retained r' k =
           (if k \<in> set (fieldNames (Fields (Elem obj))) then None else members D k)))"
proof -
  from FromJSON_success [OF assms] obtain n fs D where w:
    "obj = VPtrTo (VStruct n fs) \<and> data = Valid D \<and>
     (D = JNull \<or> (\<exists>kvs. D = JObject kvs)) \<and>
     (\<forall>k. retained r' k =
        (if k \<in> set (fieldNames fs) then None
         else (case members D k of Some j \<Rightarrow> Some j
               | None \<Rightarrow> if D = JNull then None else retained r k))) \<and>
     (raw r' = None \<longleftrightarrow> (\<forall>k. retained r' k = None))"
    by (elim exE) (rule that)
  have obj: "obj = VPtrTo (VStruct n fs)" and D: "data = Valid D"
    and a: "\<forall>k. retained r' k =
        (if k \<in> set (fieldNames fs) then None
         else (case members D k of Some j \<Rightarrow> Some j
               | None \<Rightarrow> if D = JNull then None else retained r k))"
    and nil: "raw r' = None \<longleftrightarrow> (\<forall>k. retained r' k = None)"
    using w by simp_all
  have fs: "Fields (Elem obj) = fs" by (simp add: obj)
  have b: "(\<forall>k. retained r k = None) \<longrightarrow>
      (\<forall>k. retained r' k = (if k \<in> set (fieldNames fs) then None else members D k))"
  proof (intro impI allI)
    fix k assume "\<forall>k. retained r k = None"
    then have "retained r k = None" by blast
    then show "retained r' k = (if k \<in> set (fieldNames fs) then None else members D k)"
      using a by (cases "members D k") auto
  qed
  show ?thesis
    unfolding fs by (rule exI [of _ D]) (intro conjI D a nil b)
qed

theorem FromJSON_retained_state_witness:
  "FromJSON json_Unmarshal_value \<lparr>raw = None\<rparr>
       (Valid (JObject [(''title'', JString ''Contact Us''), (''slug'', JString ''contact''),
                        (''icon'', JString ''email'')]))
       (VPtrTo (Page [] [])) =
     (None, \<lparr>raw = Some [(''icon'', JString ''email'')]\<rparr>,
      VPtrTo (Page ''Contact Us'' ''contact'')) \<and>
   (\<exists>D. Valid (JObject [(''title'', JString ''Contact Us''), (''slug'', JString ''contact''),
                         (''icon'', JString ''email'')]) = Valid D \<and>
      retained \<lparr>raw = Some [(''icon'', JString ''email'')]\<rparr> ''icon'' = members D ''icon'' \<and>
      retained \<lparr>raw = Some [(''icon'', JString ''email'')]\<rparr> ''title'' = None)"
proof -
  let ?D = "JObject [(''title'', JString ''Contact Us''), (''slug'', JString ''contact''),
                        (''icon'', JString ''email'')]"
  let ?r' = "\<lparr>raw = Some [(''icon'', JString ''email'')]\<rparr>"
  have h: "FromJSON json_Unmarshal_value \<lparr>raw = None\<rparr> (Valid ?D) (VPtrTo (Page [] [])) =
      (None, ?r', VPtrTo (Page ''Contact Us'' ''contact''))"
    by code_simp
  have e: "\<forall>k. retained \<lparr>raw = None\<rparr> k = None"
    by (simp add: retained_def gomap_index_def)
  have n: "''icon'' \<notin> set (fieldNames (Fields (Elem (VPtrTo (Page [] [])))))"
    "''title'' \<in> set (fieldNames (Fields (Elem (VPtrTo (Page [] [])))))"
    by code_simp+
  from FromJSON_retained_state [OF h] obtain D where w:
    "Valid ?D = Valid D \<and>
     (\<forall>k. retained ?r' k =
        (if k \<in> set (fieldNames (Fields (Elem (VPtrTo (Page [] []))))) then None
         else (case members D k of Some j \<Rightarrow> Some j
               | None \<Rightarrow> if D = JNull then None else retained \<lparr>raw = None\<rparr> k))) \<and>
     (raw ?r' = None \<longleftrightarrow> (\<forall>k. retained ?r' k = None)) \<and>
     ((\<forall>k. retained \<lparr>raw = None\<rparr> k = None) \<longrightarrow>
        (\<forall>k. retained ?r' k =
           (if k \<in> set (fieldNames (Fields (Elem (VPtrTo (Page [] []))))) then None
            else members D k)))"
    by (elim exE) (rule that)
  have D: "Valid ?D = Valid D" using w by (rule conjunct1)
  note a = w [THEN conjunct2, THEN conjunct2, THEN conjunct2, THEN mp, OF e]
  have i: "retained ?r' ''icon'' = members D ''icon''"
    using a [rule_format, of "''icon''"] n(1) by simp
  have t: "retained ?r' ''title'' = None"
    using a [rule_format, of "''title''"] n(2) by simp
  show ?thesis
    by (rule conjI [OF h], rule exI [of _ D]) (intro conjI D i t)
qed

text \<open>
  Claim C2 as stated fails when the receiver already holds a state: decoding
  \<^verbatim>\<open>{"title":"Contact Us"}\<close> into a \<^verbatim>\<open>Page\<close> whose receiver retains \<^verbatim>\<open>icon\<close> succeeds and
  still retains \<^verbatim>\<open>icon\<close>, which is not an entry of the document.
\<close>

theorem FromJSON_retained_state_counterexample:
  "FromJSON json_Unmarshal_value \<lparr>raw = Some [(''icon'', JString ''email'')]\<rparr>
       (Valid (JObject [(''title'', JString ''Contact Us'')])) (VPtrTo (Page [] [])) =
     (None, \<lparr>raw = Some [(''icon'', JString ''email'')]\<rparr>, VPtrTo (Page ''Contact Us'' [])) \<and>
   retained \<lparr>raw = Some [(''icon'', JString ''email'')]\<rparr> ''icon'' = Some (JString ''email'') \<and>
   members (JObject [(''title'', JString ''Contact Us'')]) ''icon'' = None \<and>
   ''icon'' \<notin> set (fieldNames (Fields (Page [] [])))"
  by code_simp

section \<open>The empty state\<close>

lemma emitted_Nil:
  "(\<forall>(t, v) \<in> set (jsonFields fs). omitEmpty t \<and> empty_value v) \<Longrightarrow> emitted fs = []"
  by (auto simp: emitted_def isZero_empty_value filter_empty_conv)

lemma working_map_Nil:
  assumes "\<forall>k. retained r k = None" and "emitted fs = []"
  shows "working_map r fs = []"
proof -
  have "map_of (working_map r fs) k = None" for k
    using assms by (simp add: map_of_working_map)
  then have "map_of (working_map r fs) = Map.empty" by (simp add: fun_eq_iff)
  then show ?thesis by (simp only: map_of_eq_empty_iff)
qed

text \<open>
  Claim C8, as amended. First: after a successful \<^verbatim>\<open>FromJSON\<close> of an object all of whose keys
  are claimed by declared fields, on a receiver that held no entry before the call other
  than under claimed keys, the retained state is nil. Second: \<^verbatim>\<open>ToJSON\<close> of a record that
  retains nothing and all of whose declared fields have the flag \<^verbatim>\<open>omitempty\<close> and an empty
  value returns the empty object.
\<close>

theorem empty_state_equivalence:
  "(FromJSON dec r (Valid (JObject kvs)) obj = (None, r', obj') \<and>
    set (map fst kvs) \<subseteq> set (fieldNames (Fields (Elem obj))) \<and>
    (\<forall>k. retained r k \<noteq> None \<longrightarrow> k \<in> set (fieldNames (Fields (Elem obj)))) \<longrightarrow>
      raw r' = None) \<and>
   (struct_with obj fs \<and> (\<forall>k. retained r k = None) \<and>
    (\<forall>(t, v) \<in> set (jsonFields fs). omitEmpty t \<and> empty_value v) \<longrightarrow>
      ToJSON enc r obj = Inr (JObject []))"
proof (intro conjI impI)
  assume h: "FromJSON dec r (Valid (JObject kvs)) obj = (None, r', obj') \<and>
    set (map fst kvs) \<subseteq> set (fieldNames (Fields (Elem obj))) \<and>
    (\<forall>k. retained r k \<noteq> None \<longrightarrow> k \<in> set (fieldNames (Fields (Elem obj))))"
  then have s: "FromJSON dec r (Valid (JObject kvs)) obj = (None, r', obj')"
    and sub: "set (map fst kvs) \<subseteq> set (fieldNames (Fields (Elem obj)))"
    and pr: "\<forall>k. retained r k \<noteq> None \<longrightarrow> k \<in> set (fieldNames (Fields (Elem obj)))"
    by simp_all
  from FromJSON_success [OF s] obtain n fs D where w:
    "obj = VPtrTo (VStruct n fs) \<and> Valid (JObject kvs) = Valid D \<and>
     (D = JNull \<or> (\<exists>kvs. D = JObject kvs)) \<and>
     (\<forall>k. retained r' k =
        (if k \<in> set (fieldNames fs) then None
         else (case members D k of Some j \<Rightarrow> Some j
               | None \<Rightarrow> if D = JNull then None else retained r k))) \<and>
     (raw r' = None \<longleftrightarrow> (\<forall>k. retained r' k = None))"
    by (elim exE) (rule that)
  have obj: "obj = VPtrTo (VStruct n fs)" and D: "D = JObject kvs"
    and a: "\<forall>k. retained r' k =
        (if k \<in> set (fieldNames fs) then None
         else (case members D k of Some j \<Rightarrow> Some j
               | None \<Rightarrow> if D = JNull then None else retained r k))"
    and nil: "raw r' = None \<longleftrightarrow> (\<forall>k. retained r' k = None)"
    using w by simp_all
  have fs: "Fields (Elem obj) = fs" by (simp add: obj)
  have "retained r' k = None" for k
  proof (cases "k \<in> set (fieldNames fs)")
    case True
    then show ?thesis using a by simp
  next
    case False
    then have "k \<notin> fst ` set (rev kvs)" using sub fs by auto
    then have "members D k = None" unfolding D by (simp add: map_of_eq_None_iff)
    moreover have "retained r k = None" using pr False fs by auto
    ultimately show ?thesis using a False by simp
  qed
  then show "raw r' = None" using nil by simp
next
  assume h: "struct_with obj fs \<and> (\<forall>k. retained r k = None) \<and>
    (\<forall>(t, v) \<in> set (jsonFields fs). omitEmpty t \<and> empty_value v)"
  then obtain rv where rv: "ensureStruct obj False = (rv, True)" and f: "Fields rv = fs"
    using struct_with_ensureStruct by blast
  have "working_map r fs = []"
    using h emitted_Nil [of fs] working_map_Nil [of r fs] by simp
  then show "ToJSON enc r obj = Inr (JObject [])"
    using ToJSON_working_map [OF rv, of enc r] f by (simp add: json_Marshal_map_def)
qed

theorem empty_state_equivalence_witness:
  "FromJSON json_Unmarshal_value \<lparr>raw = None\<rparr> (Valid (JObject [(''name'', JString ''foo'')]))
       (VPtrTo (S [])) = (None, \<lparr>raw = None\<rparr>, VPtrTo (S ''foo'')) \<and>
   set (map fst [(''name'', JString ''foo'')]) \<subseteq> set (fieldNames (Fields (Elem (VPtrTo (S []))))) \<and>
   raw \<lparr>raw = None\<rparr> = None \<and>
   struct_with (VPtrTo (S [])) (Fields (S [])) \<and>
   ToJSON json_Marshal_value \<lparr>raw = None\<rparr> (VPtrTo (S [])) = Inr (JObject [])"
proof -
  let ?r = "\<lparr>raw = None\<rparr> :: Retain"
  have h1: "FromJSON json_Unmarshal_value ?r (Valid (JObject [(''name'', JString ''foo'')]))
       (VPtrTo (S [])) = (None, ?r, VPtrTo (S ''foo''))"
    by code_simp
  have h2: "set (map fst [(''name'', JString ''foo'')]) \<subseteq> set (fieldNames (Fields (Elem (VPtrTo (S [])))))"
    by code_simp
  have h3: "\<forall>k. retained ?r k = None"
    by (simp add: retained_def gomap_index_def)
  have h4: "struct_with (VPtrTo (S [])) (Fields (S []))"
    by (simp add: struct_with_def S_def)
  have h5: "\<forall>(t, v) \<in> set (jsonFields (Fields (S []))). omitEmpty t \<and> empty_value v"
    by code_simp
  note th = empty_state_equivalence [where r = ?r and obj = "VPtrTo (S [])" and r' = ?r
      and kvs = "[(''name'', JString ''foo'')]" and dec = json_Unmarshal_value
      and obj' = "VPtrTo (S ''foo'')" and fs = "Fields (S [])" and enc = json_Marshal_value]
  have a: "raw ?r = None"
    using th [THEN conjunct1] h1 h2 h3 by simp
  have b: "ToJSON json_Marshal_value ?r (VPtrTo (S [])) = Inr (JObject [])"
    using th [THEN conjunct2] h3 h4 h5 by simp
  show ?thesis using h1 h2 a h4 b by simp
qed

text \<open>
  Claim C8 as stated fails twice. A receiver that already retains \<^verbatim>\<open>num\<close> still retains it
  after decoding \<^verbatim>\<open>{"name":"foo"}\<close>, a document whose only key is claimed, so the state is
  not nil. And \<^verbatim>\<open>Page\<close>, none of whose fields has the flag \<^verbatim>\<open>omitempty\<close>, is written with
  both of its fields although it retains nothing.
\<close>

theorem empty_state_equivalence_counterexample:
  "FromJSON json_Unmarshal_value \<lparr>raw = Some [(''num'', JNumber ''1'')]\<rparr>
       (Valid (JObject [(''name'', JString ''foo'')])) (VPtrTo (S [])) =
     (None, \<lparr>raw = Some [(''num'', JNumber ''1'')]\<rparr>, VPtrTo (S ''foo'')) \<and>
   set (map fst [(''name'', JString ''foo'')]) \<subseteq> set (fieldNames (Fields (S []))) \<and>
   raw \<lparr>raw = Some [(''num'', JNumber ''1'')]\<rparr> \<noteq> None \<and>
   filter (\<lambda>(t, v). omitEmpty t) (jsonFields (Fields (Page [] []))) = [] \<and>
   ToJSON json_Marshal_value \<lparr>raw = None\<rparr> (Page [] []) =
     Inr (JObject [(''slug'', JString []), (''title'', JString [])])"
  by code_simp

section \<open>Encoding with the maps in a store\<close>

lemma map_assign_other: "a \<noteq> b \<Longrightarrow> map_assign a k v h ! b = h ! b"
  by (simp add: map_assign_def)

lemma length_map_assign: "length (map_assign a k v h) = length h"
  by (simp add: map_assign_def)

lemma map_assign_same: "a < length h \<Longrightarrow> map_assign a k v h ! a = AList.update k v (h ! a)"
  by (simp add: map_assign_def)

text \<open>a loop of assignments to the cell \<open>a\<close> changes that cell only\<close>
lemma foldl_map_assign:
  assumes "a < length h"
  shows "length (foldl (\<lambda>acc (k, v). map_assign a k (f v) acc) h xs) = length h \<and>
     (\<forall>b. b \<noteq> a \<longrightarrow> foldl (\<lambda>acc (k, v). map_assign a k (f v) acc) h xs ! b = h ! b) \<and>
     foldl (\<lambda>acc (k, v). map_assign a k (f v) acc) h xs ! a =
       foldl (\<lambda>acc (k, v). AList.update k (f v) acc) (h ! a) xs"
  using assms
proof (induction xs arbitrary: h)
  case Nil
  show ?case by simp
next
  case (Cons p xs)
  obtain k v where p: "p = (k, v)" by (cases p)
  have l: "a < length (map_assign a k (f v) h)"
    using Cons.prems by (simp add: length_map_assign)
  show ?case
    unfolding p using Cons.IH [OF l] Cons.prems
    by (simp add: length_map_assign map_assign_other map_assign_same)
qed

lemma forJSONField_ToJSON_store:
  "forJSONField (ToJSON_field_store a) () fs h = ((), fs, foldl (overlay_store a) h (jsonFields fs))"
  by (rule forJSONField_fold) (auto simp: ToJSON_field_store_def overlay_store_def)

lemma foldl_overlay_store:
  assumes "a < length h"
  shows "length (foldl (overlay_store a) h tvs) = length h \<and>
     (\<forall>b. b \<noteq> a \<longrightarrow> foldl (overlay_store a) h tvs ! b = h ! b) \<and>
     foldl (overlay_store a) h tvs ! a = foldl overlay (h ! a) tvs"
  using assms
proof (induction tvs arbitrary: h)
  case Nil
  show ?case by simp
next
  case (Cons p tvs)
  obtain t v where p: "p = (t, v)" by (cases p)
  have l: "a < length (overlay_store a h p)"
    using Cons.prems by (simp add: overlay_store_def p length_map_assign)
  show ?case
    unfolding p using Cons.IH [OF l] Cons.prems
    by (simp add: overlay_store_def overlay_def p length_map_assign map_assign_other
        map_assign_same)
qed


lemma with_Fields_Fields: "Kind_of rv = KStruct \<Longrightarrow> with_Fields rv (Fields rv) = rv"
  by (cases rv) auto

lemma copy_of_cell:
  "foldl (\<lambda>acc (k, v). AList.update k v acc) [] (AList.clearjunk (map (\<lambda>(k, j). (k, Raw j)) m)) =
   foldl (\<lambda>acc (k, v). AList.update k (Raw v) acc) [] (AList.clearjunk m)"
proof -
  have "AList.clearjunk (map_ran (\<lambda>k. Raw) m) = map_ran (\<lambda>k. Raw) (AList.clearjunk m)"
    by (rule clearjunk_map_ran)
  then have "AList.clearjunk (map (\<lambda>(k, j). (k, Raw j)) m) =
      map (\<lambda>(k, j). (k, Raw j)) (AList.clearjunk m)"
    unfolding map_ran_def .
  then show ?thesis
    by (simp add: foldl_map case_prod_unfold)
qed

text \<open>
  Claim C9. \<^verbatim>\<open>ToJSON\<close>, run with the maps in a store, returns the receiver and the record
  as they were, and every map that existed before the call, the raw map of the receiver
  among them, is as it was: the only cell written is the one that \<^verbatim>\<open>make\<close> allocated for
  the working map. The document it returns is the one that the function \<open>ToJSON\<close> above
  computes from the value of the raw map.
\<close>

theorem ToJSON_no_side_effect:
  "\<exists>res h'. ToJSON_store enc h r obj = (res, h', r, obj) \<and>
     length h \<le> length h' \<and>
     (\<forall>a < length h. h' ! a = h ! a) \<and>
     (\<forall>a m. raw_ref r = Some a \<and> a < length h \<and> h ! a = map (\<lambda>(k, j). (k, Raw j)) m \<longrightarrow>
        res = ToJSON enc \<lparr>raw = Some m\<rparr> obj) \<and>
     (raw_ref r = None \<longrightarrow> res = ToJSON enc \<lparr>raw = None\<rparr> obj)"
proof -
  obtain rv ok where e: "ensureStruct obj False = (rv, ok)" by (cases "ensureStruct obj False")
  show ?thesis
  proof (cases ok)
    case False
    then show ?thesis using e by (simp add: ToJSON_store_def ToJSON_def)
  next
    case True
    let ?all = "length h"
    let ?h1 = "h @ [[]]"
    let ?h2 = "foldl (\<lambda>acc (k, v). map_assign ?all k v acc) ?h1 (range_ref ?h1 (raw_ref r))"
    let ?h3 = "foldl (overlay_store ?all) ?h2 (jsonFields (Fields rv))"
    have l1: "?all < length ?h1" by simp
    note c = foldl_map_assign [OF l1, where f = "\<lambda>v. v" and xs = "range_ref ?h1 (raw_ref r)"]
    have l2: "?all < length ?h2" using c by simp
    note o = foldl_overlay_store [OF l2, where tvs = "jsonFields (Fields rv)"]
    have len: "length ?h3 = Suc (length h)" using o c by simp
    have frame: "\<forall>a < length h. ?h3 ! a = h ! a"
      using o c by (simp add: nth_append)
    have cell: "?h3 ! ?all =
        foldl overlay (foldl (\<lambda>acc (k, v). AList.update k v acc) []
                         (range_ref ?h1 (raw_ref r))) (jsonFields (Fields rv))"
      using o c by simp
    have obj: "(if Kind_of obj = KPointer then VPtrTo (with_Fields rv (Fields rv))
         else with_Fields rv (Fields rv)) = obj"
      using e True
      by (cases obj) (auto simp: ensureStruct_def with_Fields_Fields split: if_splits)
    have run: "ToJSON_store enc h r obj = (json_Marshal_map enc (?h3 ! ?all), ?h3, r, obj)"
      using e True obj
      by (simp add: ToJSON_store_def make_map_def Let_def forJSONField_ToJSON_store)
    have pure: "ToJSON enc r0 obj =
        json_Marshal_map enc (foldl overlay
          (foldl (\<lambda>acc (k, v). AList.update k (Raw v) acc) [] (gomap_range (raw r0)))
          (jsonFields (Fields rv)))" for r0
      using e True by (simp add: ToJSON_def Let_def forJSONField_ToJSON)
    have some: "\<forall>a m. raw_ref r = Some a \<and> a < length h \<and> h ! a = map (\<lambda>(k, j). (k, Raw j)) m \<longrightarrow>
        json_Marshal_map enc (?h3 ! ?all) = ToJSON enc \<lparr>raw = Some m\<rparr> obj"
      unfolding cell pure
      by (auto simp: range_ref_def gomap_range_def nth_append copy_of_cell)
    have none: "raw_ref r = None \<longrightarrow>
        json_Marshal_map enc (?h3 ! ?all) = ToJSON enc \<lparr>raw = None\<rparr> obj"
      unfolding cell pure by (simp add: range_ref_def gomap_range_def)
    show ?thesis
      by (rule exI [of _ "json_Marshal_map enc (?h3 ! ?all)"], rule exI [of _ ?h3])
         (use run len frame some none in simp)
  qed
qed

theorem ToJSON_no_side_effect_witness:
  "ToJSON_store json_Marshal_value [[(''icon'', Raw (JString ''email''))]] \<lparr>raw_ref = Some 0\<rparr>
       (Page ''Contact Us'' ''contact-us'') =
     (Inr (JObject [(''icon'', JString ''email''), (''slug'', JString ''contact-us''),
                    (''title'', JString ''Contact Us'')]),
      [[(''icon'', Raw (JString ''email''))],
       [(''icon'', Raw (JString ''email'')), (''title'', Val (VString ''Contact Us'')),
        (''slug'', Val (VString ''contact-us''))]],
      \<lparr>raw_ref = Some 0\<rparr>, Page ''Contact Us'' ''contact-us'') \<and>
   (\<exists>res h'. ToJSON_store json_Marshal_value [[(''icon'', Raw (JString ''email''))]]
        \<lparr>raw_ref = Some 0\<rparr> (Page ''Contact Us'' ''contact-us'') =
          (res, h', \<lparr>raw_ref = Some 0\<rparr>, Page ''Contact Us'' ''contact-us'') \<and>
      h' ! 0 = [(''icon'', Raw (JString ''email''))] \<and>
      res = ToJSON json_Marshal_value \<lparr>raw = Some [(''icon'', JString ''email'')]\<rparr>
              (Page ''Contact Us'' ''contact-us''))"
proof -
  let ?h = "[[(''icon'', Raw (JString ''email''))]]"
  let ?r = "\<lparr>raw_ref = Some 0\<rparr>"
  let ?p = "Page ''Contact Us'' ''contact-us''"
  have run: "ToJSON_store json_Marshal_value ?h ?r ?p =
     (Inr (JObject [(''icon'', JString ''email''), (''slug'', JString ''contact-us''),
                    (''title'', JString ''Contact Us'')]),
      [[(''icon'', Raw (JString ''email''))],
       [(''icon'', Raw (JString ''email'')), (''title'', Val (VString ''Contact Us'')),
        (''slug'', Val (VString ''contact-us''))]],
      ?r, ?p)"
    by code_simp
  have c: "raw_ref ?r = Some 0 \<and> 0 < length ?h \<and>
      ?h ! 0 = map (\<lambda>(k, j). (k, Raw j)) [(''icon'', JString ''email'')]"
    by simp
  from ToJSON_no_side_effect [of json_Marshal_value ?h ?r ?p]
  obtain res h' where w: "ToJSON_store json_Marshal_value ?h ?r ?p = (res, h', ?r, ?p) \<and>
     length ?h \<le> length h' \<and>
     (\<forall>a < length ?h. h' ! a = ?h ! a) \<and>
     (\<forall>a m. raw_ref ?r = Some a \<and> a < length ?h \<and> ?h ! a = map (\<lambda>(k, j). (k, Raw j)) m \<longrightarrow>
        res = ToJSON json_Marshal_value \<lparr>raw = Some m\<rparr> ?p) \<and>
     (raw_ref ?r = None \<longrightarrow> res = ToJSON json_Marshal_value \<lparr>raw = None\<rparr> ?p)"
    by (elim exE) (rule that)
  have 1: "ToJSON_store json_Marshal_value ?h ?r ?p = (res, h', ?r, ?p)"
    using w by (rule conjunct1)
  have 2: "h' ! 0 = ?h ! 0"
    using w [THEN conjunct2, THEN conjunct2, THEN conjunct1] by simp
  have 3: "res = ToJSON json_Marshal_value \<lparr>raw = Some [(''icon'', JString ''email'')]\<rparr> ?p"
    using w [THEN conjunct2, THEN conjunct2, THEN conjunct2, THEN conjunct1, rule_format, OF c] .
  have "\<exists>res h'. ToJSON_store json_Marshal_value ?h ?r ?p = (res, h', ?r, ?p) \<and>
      h' ! 0 = [(''icon'', Raw (JString ''email''))] \<and>
      res = ToJSON json_Marshal_value \<lparr>raw = Some [(''icon'', JString ''email'')]\<rparr> ?p"
    by (rule exI [of _ res], rule exI [of _ h']) (use 1 2 3 in simp)
  with run show ?thesis by (rule conjI)
qed

section \<open>The round trip\<close>

lemma fieldNames_Cons:
  "fieldNames ((ft, v) # fs) =
     (if visited ft then name (jsonTag_of ft) # fieldNames fs else fieldNames fs)"
  by (simp add: fieldNames_def jsonFields_Cons)

lemma fieldNames_member:
  "(t, v) \<in> set (jsonFields fs) \<Longrightarrow> name t \<in> set (fieldNames fs)"
  by (force simp: fieldNames_def)

lemma FromJSON_loop_fields:
  assumes "distinct (fieldNames fs)"
    and "\<forall>(t, v) \<in> set (jsonFields fs). \<forall>j. M (name t) = Some j \<longrightarrow> snd (dec j v) = None"
    and "\<forall>(t, v) \<in> set (jsonFields fs). gomap_index m (name t) = M (name t)"
  shows "\<exists>fs' m'. forJSONField (FromJSON_field dec) None fs m = (None, fs', m') \<and>
     jsonFields fs' =
       map (\<lambda>(t, v). (t, case M (name t) of None \<Rightarrow> v | Some j \<Rightarrow> fst (dec j v)))
         (jsonFields fs)"
  using assms
proof (induction fs arbitrary: m)
  case Nil
  show ?case by simp
next
  case (Cons p fs)
  obtain ft v where p: "p = (ft, v)" by (cases p)
  show ?case
  proof (cases "visited ft")
    case False
    have "\<exists>fs' m'. forJSONField (FromJSON_field dec) None fs m = (None, fs', m') \<and>
       jsonFields fs' =
         map (\<lambda>(t, v). (t, case M (name t) of None \<Rightarrow> v | Some j \<Rightarrow> fst (dec j v)))
           (jsonFields fs)"
      using Cons.prems False unfolding p
      by (intro Cons.IH) (simp_all add: fieldNames_Cons jsonFields_Cons)
    then obtain fs' m' where f: "forJSONField (FromJSON_field dec) None fs m = (None, fs', m')"
      and j: "jsonFields fs' =
         map (\<lambda>(t, v). (t, case M (name t) of None \<Rightarrow> v | Some j \<Rightarrow> fst (dec j v)))
           (jsonFields fs)"
      by (elim exE conjE)
    have "forJSONField (FromJSON_field dec) None ((ft, v) # fs) m = (None, (ft, v) # fs', m')"
      using False f by (simp add: forJSONField_skip)
    moreover have "jsonFields ((ft, v) # fs') =
         map (\<lambda>(t, v). (t, case M (name t) of None \<Rightarrow> v | Some j \<Rightarrow> fst (dec j v)))
           (jsonFields ((ft, v) # fs))"
      using False j by (simp add: jsonFields_Cons)
    ultimately show ?thesis unfolding p by (intro exI conjI)
  next
    case True
    let ?t = "jsonTag_of ft"
    let ?v' = "case M (name ?t) of None \<Rightarrow> v | Some j \<Rightarrow> fst (dec j v)"
    let ?m1 = "case M (name ?t) of None \<Rightarrow> m | Some j \<Rightarrow> gomap_delete (name ?t) m"
    have d: "distinct (fieldNames fs)" and nt: "name ?t \<notin> set (fieldNames fs)"
      using Cons.prems(1) True unfolding p by (simp_all add: fieldNames_Cons)
    have idx: "gomap_index m (name ?t) = M (name ?t)"
      using Cons.prems(3) True unfolding p by (simp add: jsonFields_Cons)
    have ok: "\<forall>j. M (name ?t) = Some j \<longrightarrow> snd (dec j v) = None"
      using Cons.prems(2) True unfolding p by (simp add: jsonFields_Cons)
    have step: "FromJSON_field dec ?t v m = (None, ?v', ?m1)"
    proof (cases "M (name ?t)")
      case None
      then show ?thesis using idx by (simp add: FromJSON_field_absent)
    next
      case (Some j)
      then show ?thesis using idx ok by (simp add: FromJSON_field_present)
    qed
    have rest2: "\<forall>(t, v) \<in> set (jsonFields fs). \<forall>j. M (name t) = Some j \<longrightarrow> snd (dec j v) = None"
      using Cons.prems(2) True unfolding p by (simp add: jsonFields_Cons)
    have rest3: "\<forall>(t, v) \<in> set (jsonFields fs). gomap_index ?m1 (name t) = M (name t)"
    proof (clarify)
      fix t' v' assume m: "(t', v') \<in> set (jsonFields fs)"
      then have ne: "name t' \<noteq> name ?t" using nt fieldNames_member by metis
      have "gomap_index m (name t') = M (name t')"
        using Cons.prems(3) True m unfolding p by (auto simp: jsonFields_Cons)
      then show "gomap_index ?m1 (name t') = M (name t')"
        using ne by (cases "M (name ?t)") (simp_all add: gomap_index_delete)
    qed
    from Cons.IH [OF d rest2 rest3]
    obtain fs' m' where f: "forJSONField (FromJSON_field dec) None fs ?m1 = (None, fs', m')"
      and j: "jsonFields fs' =
         map (\<lambda>(t, v). (t, case M (name t) of None \<Rightarrow> v | Some j \<Rightarrow> fst (dec j v)))
           (jsonFields fs)"
      by (elim exE conjE)
    have "forJSONField (FromJSON_field dec) None ((ft, v) # fs) m = (None, (ft, ?v') # fs', m')"
      using True step f by (simp add: forJSONField_visit)
    moreover have "jsonFields ((ft, ?v') # fs') =
         map (\<lambda>(t, v). (t, case M (name t) of None \<Rightarrow> v | Some j \<Rightarrow> fst (dec j v)))
           (jsonFields ((ft, v) # fs))"
      using True j by (simp add: jsonFields_Cons)
    ultimately show ?thesis unfolding p by (intro exI conjI)
  qed
qed


lemma emitted_member:
  "(k, v) \<in> set (emitted fs) \<longleftrightarrow>
     (\<exists>t. (t, v) \<in> set (jsonFields fs) \<and> name t = k \<and> \<not> (omitEmpty t \<and> isZero v))"
  by (auto simp: emitted_def)

text \<open>
  Claim C1, as amended. Decode an object \<open>D\<close> into a record whose receiver retains nothing
  and whose canonical names are distinct, and suppose that every declared field is in one
  of two cases: its name is a key of \<open>D\<close>, the codec decodes the value without error,
  encodes the decoded value back to the same value, and the decoded value is not omitted
  as empty; or its name is not a key of \<open>D\<close>, and the field has the flag \<^verbatim>\<open>omitempty\<close> and
  holds an empty value. Then \<^verbatim>\<open>FromJSON\<close> succeeds, \<^verbatim>\<open>ToJSON\<close> of the result succeeds, and
  the document it returns has every key once and is equal to \<open>D\<close> as a mapping from keys
  to values.
\<close>

theorem round_trip:
  assumes fresh: "\<forall>k. retained r k = None"
    and dist: "distinct (fieldNames fs)"
    and flds: "\<forall>(t, v) \<in> set (jsonFields fs).
      (case map_of (rev kvs) (name t) of
         None \<Rightarrow> omitEmpty t \<and> empty_value v
       | Some j \<Rightarrow> snd (dec j v) = None \<and> enc (fst (dec j v)) = Inr j \<and>
           \<not> (omitEmpty t \<and> empty_value (fst (dec j v))))"
  shows "\<exists>r' obj' out.
     FromJSON dec r (Valid (JObject kvs)) (VPtrTo (VStruct n fs)) = (None, r', obj') \<and>
     ToJSON enc r' obj' = Inr (JObject out) \<and>
     distinct (map fst out) \<and>
     members (JObject out) = members (JObject kvs)"
proof -
  let ?M = "map_of (rev kvs)"
  let ?m0 = "Some (foldl (\<lambda>acc (k, v). AList.update k v acc)
                      (case raw r of None \<Rightarrow> [] | Some old \<Rightarrow> old) kvs)"
  have un: "json_Unmarshal_map (Valid (JObject kvs)) (raw r) = Inr ?m0" by simp
  have m0: "gomap_index ?m0 k = ?M k" for k
  proof -
    from json_Unmarshal_map_Inr [OF un] obtain D where w:
      "Valid (JObject kvs) = Valid D \<and> (D = JNull \<or> (\<exists>kvs. D = JObject kvs)) \<and>
       (\<forall>k. gomap_index ?m0 k =
          (case members D k of Some j \<Rightarrow> Some j
           | None \<Rightarrow> if D = JNull then None else gomap_index (raw r) k))"
      by (elim exE) (rule that)
    then have D: "D = JObject kvs" by simp
    have "gomap_index (raw r) k = None" using fresh by (simp add: retained_def)
    then show ?thesis
      using w [THEN conjunct2, THEN conjunct2, rule_format, of k] unfolding D
      by (cases "?M k") simp_all
  qed
  have h2: "\<forall>(t, v) \<in> set (jsonFields fs). \<forall>j. ?M (name t) = Some j \<longrightarrow> snd (dec j v) = None"
    using flds by fastforce
  have h3: "\<forall>(t, v) \<in> set (jsonFields fs). gomap_index ?m0 (name t) = ?M (name t)"
    using m0 by blast
  from FromJSON_loop_fields [OF dist h2 h3] obtain fs' m' where
    loop: "forJSONField (FromJSON_field dec) None fs ?m0 = (None, fs', m')"
    and jf: "jsonFields fs' =
       map (\<lambda>(t, v). (t, case ?M (name t) of None \<Rightarrow> v | Some j \<Rightarrow> fst (dec j v)))
         (jsonFields fs)"
    by (elim exE conjE)
  let ?r' = "r\<lparr>raw := (if gomap_len m' = 0 then None else m')\<rparr>"
  let ?obj' = "VPtrTo (VStruct n fs')"
  have dec_ok: "FromJSON dec r (Valid (JObject kvs)) (VPtrTo (VStruct n fs)) = (None, ?r', ?obj')"
    using loop by (simp add: FromJSON_struct_pointer)
  have ret: "retained ?r' k = (if k \<in> set (fieldNames fs) then None else ?M k)" for k
  proof -
    from FromJSON_success [OF dec_ok] obtain n0 fs0 D where w:
      "VPtrTo (VStruct n fs) = VPtrTo (VStruct n0 fs0) \<and> Valid (JObject kvs) = Valid D \<and>
       (D = JNull \<or> (\<exists>kvs. D = JObject kvs)) \<and>
       (\<forall>k. retained ?r' k =
          (if k \<in> set (fieldNames fs0) then None
           else (case members D k of Some j \<Rightarrow> Some j
                 | None \<Rightarrow> if D = JNull then None else retained r k))) \<and>
       (raw ?r' = None \<longleftrightarrow> (\<forall>k. retained ?r' k = None))"
      by (elim exE) (rule that)
    then have e: "fs0 = fs" "D = JObject kvs" by simp_all
    have "retained r k = None" using fresh by simp
    then show ?thesis
      using w [THEN conjunct2, THEN conjunct2, THEN conjunct2, THEN conjunct1, rule_format, of k]
      unfolding e by (cases "?M k") simp_all
  qed
  have names': "fieldNames fs' = fieldNames fs"
    unfolding fieldNames_def jf by (simp add: case_prod_unfold comp_def)
  have dist': "distinct (fieldNames fs')" using dist names' by simp
  have A: "(\<not> (omitEmpty t \<and> isZero v') \<longrightarrow> (\<exists>j. ?M (name t) = Some j \<and> enc v' = Inr j)) \<and>
      (omitEmpty t \<and> isZero v' \<longrightarrow> ?M (name t) = None)"
    if "(t, v') \<in> set (jsonFields fs')" for t v'
  proof -
    from that obtain v where v: "(t, v) \<in> set (jsonFields fs)"
      and v': "v' = (case ?M (name t) of None \<Rightarrow> v | Some j \<Rightarrow> fst (dec j v))"
      unfolding jf by auto
    have c: "case ?M (name t) of
         None \<Rightarrow> omitEmpty t \<and> empty_value v
       | Some j \<Rightarrow> snd (dec j v) = None \<and> enc (fst (dec j v)) = Inr j \<and>
           \<not> (omitEmpty t \<and> empty_value (fst (dec j v)))"
      using flds v by fastforce
    show ?thesis
      using c unfolding v' by (cases "?M (name t)") (simp_all add: isZero_empty_value)
  qed
  have sw: "struct_with ?obj' fs'" by (simp add: struct_with_def)
  have es: "ensureStruct ?obj' False = (VStruct n fs', True)" by (simp add: ensureStruct_def)
  have "\<forall>k a. map_of (working_map ?r' fs') k = Some a \<longrightarrow> (\<exists>j. marshal_any enc a = Inr j)"
  proof (intro allI impI)
    fix k a assume s: "map_of (working_map ?r' fs') k = Some a"
    show "\<exists>j. marshal_any enc a = Inr j"
    proof (cases "map_of (rev (emitted fs')) k")
      case None
      then have "a \<in> range Raw" using s by (auto simp: map_of_working_map)
      then show ?thesis by auto
    next
      case (Some v)
      then have a: "a = Val v" using s by (simp add: map_of_working_map)
      have "(k, v) \<in> set (emitted fs')" using Some by (metis map_of_SomeD set_rev)
      then obtain t where "(t, v) \<in> set (jsonFields fs')" "\<not> (omitEmpty t \<and> isZero v)"
        unfolding emitted_member by blast
      then show ?thesis using A [of t v] a by auto
    qed
  qed
  from json_Marshal_map_succeeds [OF this] obtain out where
    "json_Marshal_map enc (working_map ?r' fs') = Inr (JObject out)" by (elim exE)
  then have enc_ok: "ToJSON enc ?r' ?obj' = Inr (JObject out)"
    using ToJSON_working_map [OF es, of enc ?r'] by simp
  from ToJSON_output [OF sw enc_ok] obtain out' where w:
    "JObject out = JObject out' \<and> distinct (map fst out') \<and> sorted (map fst out') \<and>
     set (map fst out') = fst ` set (emitted fs') \<union> dom (retained ?r') \<and>
     (\<forall>k v. map_of (rev (emitted fs')) k = Some v \<longrightarrow>
        (\<exists>j. enc v = Inr j \<and> map_of out' k = Some j)) \<and>
     (\<forall>k. map_of (rev (emitted fs')) k = None \<longrightarrow> map_of out' k = retained ?r' k)"
    by (elim exE) (rule that)
  then have o: "out' = out" by simp
  note w' = w [unfolded o]
  note d = w' [THEN conjunct2, THEN conjunct1]
  note a = w' [THEN conjunct2, THEN conjunct2, THEN conjunct2, THEN conjunct2, THEN conjunct1]
  note b = w' [THEN conjunct2, THEN conjunct2, THEN conjunct2, THEN conjunct2, THEN conjunct2]
  have eq: "map_of out k = ?M k" for k
  proof (cases "map_of (rev (emitted fs')) k")
    case (Some v)
    then have "(k, v) \<in> set (emitted fs')" by (metis map_of_SomeD set_rev)
    then obtain t where t: "(t, v) \<in> set (jsonFields fs')" "name t = k"
      "\<not> (omitEmpty t \<and> isZero v)"
      unfolding emitted_member by blast
    then obtain j where j: "?M k = Some j" "enc v = Inr j" using A [of t v] by auto
    from a Some obtain j' where "enc v = Inr j'" "map_of out k = Some j'" by blast
    then show ?thesis using j by simp
  next
    case None
    then have out: "map_of out k = retained ?r' k" using b by blast
    show ?thesis
    proof (cases "k \<in> set (fieldNames fs)")
      case False
      then show ?thesis using out ret [of k] by simp
    next
      case True
      then have "k \<in> set (fieldNames fs')" using names' by simp
      then obtain t v where t: "(t, v) \<in> set (jsonFields fs')" "name t = k"
        by (auto simp: fieldNames_def)
      have "k \<notin> fst ` set (emitted fs')"
        using None by (simp add: map_of_eq_None_iff)
      then have "omitEmpty t \<and> isZero v"
        using t emitted_member [of k v fs'] by force
      then have "?M k = None" using A [of t v] t by auto
      then show ?thesis using out ret [of k] True by simp
    qed
  qed
  have "members (JObject out) = members (JObject kvs)"
    using d eq by (simp add: map_of_rev_distinct fun_eq_iff)
  with dec_ok enc_ok d show ?thesis
    by (intro exI conjI)
qed


theorem round_trip_witness:
  "FromJSON json_Unmarshal_value \<lparr>raw = None\<rparr>
       (Valid (JObject [(''name'', JString ''foo''), (''num'', JNumber ''1''),
                        (''str'', JString ''foo''), (''obj'', JObject [(''k'', JString ''v'')]),
                        (''list'', JArray [JNumber ''1'', JNumber ''2'', JNumber ''3''])]))
       (VPtrTo (S [])) =
     (None,
      \<lparr>raw = Some [(''num'', JNumber ''1''), (''str'', JString ''foo''),
                   (''obj'', JObject [(''k'', JString ''v'')]),
                   (''list'', JArray [JNumber ''1'', JNumber ''2'', JNumber ''3''])]\<rparr>,
      VPtrTo (S ''foo'')) \<and>
   (\<exists>r' obj' out.
      FromJSON json_Unmarshal_value \<lparr>raw = None\<rparr>
          (Valid (JObject [(''name'', JString ''foo''), (''num'', JNumber ''1''),
                           (''str'', JString ''foo''), (''obj'', JObject [(''k'', JString ''v'')]),
                           (''list'', JArray [JNumber ''1'', JNumber ''2'', JNumber ''3''])]))
          (VPtrTo (S [])) = (None, r', obj') \<and>
      ToJSON json_Marshal_value r' obj' = Inr (JObject out) \<and>
      distinct (map fst out) \<and>
      members (JObject out) =
        members (JObject [(''name'', JString ''foo''), (''num'', JNumber ''1''),
                          (''str'', JString ''foo''), (''obj'', JObject [(''k'', JString ''v'')]),
                          (''list'', JArray [JNumber ''1'', JNumber ''2'', JNumber ''3''])]))"
proof -
  let ?kvs = "[(''name'', JString ''foo''), (''num'', JNumber ''1''),
               (''str'', JString ''foo''), (''obj'', JObject [(''k'', JString ''v'')]),
               (''list'', JArray [JNumber ''1'', JNumber ''2'', JNumber ''3''])]"
  let ?r = "\<lparr>raw = None\<rparr> :: Retain"
  have run: "FromJSON json_Unmarshal_value ?r (Valid (JObject ?kvs)) (VPtrTo (S [])) =
     (None,
      \<lparr>raw = Some [(''num'', JNumber ''1''), (''str'', JString ''foo''),
                   (''obj'', JObject [(''k'', JString ''v'')]),
                   (''list'', JArray [JNumber ''1'', JNumber ''2'', JNumber ''3''])]\<rparr>,
      VPtrTo (S ''foo''))"
    by code_simp
  have h1: "\<forall>k. retained ?r k = None"
    by (simp add: retained_def gomap_index_def)
  have h2: "distinct (fieldNames (Fields (S [])))"
    by code_simp
  have h3: "\<forall>(t, v) \<in> set (jsonFields (Fields (S []))).
      (case map_of (rev ?kvs) (name t) of
         None \<Rightarrow> omitEmpty t \<and> empty_value v
       | Some j \<Rightarrow> snd (json_Unmarshal_value j v) = None \<and>
           json_Marshal_value (fst (json_Unmarshal_value j v)) = Inr j \<and>
           \<not> (omitEmpty t \<and> empty_value (fst (json_Unmarshal_value j v))))"
    by code_simp
  have s: "VPtrTo (S []) = VPtrTo (VStruct ''jsonobj.S'' (Fields (S [])))"
    by (simp add: S_def)
  show ?thesis
    using run round_trip [OF h1 h2 h3, of "''jsonobj.S''"] unfolding s [symmetric]
    by (rule conjI)
qed

text \<open>
  Claim C1 as stated fails for a known key that the document leaves out: \<^verbatim>\<open>{"icon":"email"}\<close>
  decoded into a fresh \<^verbatim>\<open>Page\<close> and encoded again has the keys \<^verbatim>\<open>slug\<close> and \<^verbatim>\<open>title\<close> as
  well, since fields without \<^verbatim>\<open>omitempty\<close> are always written.
\<close>

theorem round_trip_counterexample:
  "FromJSON json_Unmarshal_value \<lparr>raw = None\<rparr> (Valid (JObject [(''icon'', JString ''email'')]))
       (VPtrTo (Page [] [])) =
     (None, \<lparr>raw = Some [(''icon'', JString ''email'')]\<rparr>, VPtrTo (Page [] [])) \<and>
   ToJSON json_Marshal_value \<lparr>raw = Some [(''icon'', JString ''email'')]\<rparr> (VPtrTo (Page [] [])) =
     Inr (JObject [(''icon'', JString ''email''), (''slug'', JString []), (''title'', JString [])]) \<and>
   members (JObject [(''icon'', JString ''email''), (''slug'', JString []), (''title'', JString [])])
       ''slug'' = Some (JString []) \<and>
   members (JObject [(''icon'', JString ''email'')]) ''slug'' = None"
  by code_simp

end
